theory Spec2Isabelle
  imports Main "HOL-Library.AList"
begin

section \<open>JavaScript values shared by the adapters\<close>

text \<open>
  An optional string of the source (\<open>string | undefined | null\<close>) is a \<open>string option\<close>.
  JavaScript tests such a value for truthiness: \<open>undefined\<close>, \<open>null\<close> and the empty
  string are falsy.  \<open>truthy\<close> is the test \<open>if (s)\<close>, \<open>or_str s d\<close> is \<open>s || d\<close>.
\<close>

definition truthy :: "string option \<Rightarrow> bool" where
  "truthy s = (case s of None \<Rightarrow> False | Some v \<Rightarrow> v \<noteq> [])"

definition or_str :: "string option \<Rightarrow> string \<Rightarrow> string" where
  "or_str s d = (case s of None \<Rightarrow> d | Some v \<Rightarrow> (if v = [] then d else v))"

definition or_num :: "nat option \<Rightarrow> nat \<Rightarrow> nat" where
  "or_num n d = (case n of None \<Rightarrow> d | Some v \<Rightarrow> (if v = 0 then d else v))"

text \<open>
  A template literal renders a non-negative integer (\<open>Date.now()\<close>, a counter) in decimal.
\<close>

definition digit_char :: "nat \<Rightarrow> char" where
  "digit_char d = ''0123456789'' ! d"

fun dec :: "nat \<Rightarrow> string" where
  "dec n = (if n < 10 then [digit_char n] else dec (n div 10) @ [digit_char (n mod 10)])"

declare dec.simps [simp del]

text \<open>
  A value caught by \<open>catch (error)\<close>: whether it is an instance of \<open>Error\<close>, and its
  \<open>message\<close> and \<open>code\<close> properties.
\<close>

record thrown =
  is_Error :: bool
  err_message :: "string option"
  err_code :: "string option"

text \<open>
  An async iterable handed over by a vendor SDK is drained once: it delivers a finite list
  of chunks and then either ends (\<open>None\<close>) or rejects (\<open>Some e\<close>).  The call that opens
  it either rejects (\<open>Inl e\<close>) or returns the iterable.  An async generator of the adapter
  is modelled by what a consumer that drains it observes: the chunks yielded, and the
  exception that leaves the generator, if any.
\<close>

type_synonym 'c vendor_stream = "'c list \<times> thrown option"
type_synonym 'c opened = "thrown + 'c vendor_stream"
type_synonym 'c generated = "'c list \<times> thrown option"

text \<open>
  A loop \<open>for (const x of xs) { ... yield ... }\<close> inside a generator: the body takes
  the state and the element and returns what it yields and the new state.
\<close>

fun for_each :: "('s \<Rightarrow> 'a \<Rightarrow> 'o list \<times> 's) \<Rightarrow> 's \<Rightarrow> 'a list \<Rightarrow> 'o list \<times> 's" where
  "for_each body s [] = ([], s)"
| "for_each body s (x # xs) =
     (case body s x of
        (ys, s') \<Rightarrow> (case for_each body s' xs of (zs, s'') \<Rightarrow> (ys @ zs, s'')))"

section \<open>The canonical StreamChunk\<close>

record usage =
  promptTokens :: nat
  completionTokens :: nat
  totalTokens :: nat

record function_ref =
  fn_name :: string
  fn_arguments :: string

record tool_call =
  tc_id :: string
  tc_type :: string
  tc_function :: function_ref

record error_info =
  message :: string
  code :: "string option"

datatype stream_chunk =
    is_content: Content (chunk_id: string) (model: string) (timestamp: nat)
      (delta: string) (content: string) (role: string)
  | is_thinking: Thinking (content: string) (chunk_id: string) (model: string) (timestamp: nat)
  | is_tool_call: ToolCall (chunk_id: string) (model: string) (timestamp: nat)
      (toolCall: tool_call) (index: nat)
  | is_done: Done (chunk_id: string) (model: string) (timestamp: nat)
      (finishReason: string) (usage: "usage option")
  | is_error: Error (chunk_id: string) (model: string) (timestamp: nat) (error: error_info)

section \<open>The OpenAI adapter (openai-adapter.ts)\<close>

subsection \<open>Vendor chunks\<close>

record oa_function =
  oaf_name :: "string option"
  oaf_arguments :: "string option"

record oa_tool_call =
  oatc_index :: "nat option"
  oatc_id :: "string option"
  oatc_function :: "oa_function option"

record oa_delta =
  d_content :: "string option"
  d_role :: "string option"
  d_tool_calls :: "oa_tool_call list option"

record oa_choice =
  ch_delta :: "oa_delta option"
  ch_finish_reason :: "string option"

record oa_usage =
  prompt_tokens :: "nat option"
  completion_tokens :: "nat option"
  total_tokens :: "nat option"

record oa_chunk =
  oc_id :: string
  oc_model :: string
  oc_choices :: "oa_choice list"
  oc_usage :: "oa_usage option"

text \<open>\<open>chunk.choices[0]\<close>, \<open>chunk.choices[0]?.delta\<close> and \<open>delta?.content\<close>.\<close>

definition choice0 :: "oa_chunk \<Rightarrow> oa_choice option" where
  "choice0 c = (case oc_choices c of [] \<Rightarrow> None | ch # _ \<Rightarrow> Some ch)"

definition delta0 :: "oa_chunk \<Rightarrow> oa_delta option" where
  "delta0 c = (case choice0 c of None \<Rightarrow> None | Some ch \<Rightarrow> ch_delta ch)"

definition delta_content :: "oa_chunk \<Rightarrow> string option" where
  "delta_content c = (case delta0 c of None \<Rightarrow> None | Some d \<Rightarrow> d_content d)"

definition finish_reason0 :: "oa_chunk \<Rightarrow> string option" where
  "finish_reason0 c = (case choice0 c of None \<Rightarrow> None | Some ch \<Rightarrow> ch_finish_reason ch)"

subsection \<open>chatCompletionStream\<close>

record completion_chunk =
  cc_id :: string
  cc_model :: string
  cc_content :: string
  cc_role :: "string option"
  cc_finishReason :: "string option"

text \<open>The body of the \<open>for await\<close> loop: what one vendor chunk makes the generator yield.\<close>

definition chatCompletionStream_chunk :: "oa_chunk \<Rightarrow> completion_chunk list" where
  "chatCompletionStream_chunk c =
     (if truthy (delta_content c)
      then [\<lparr> cc_id = oc_id c, cc_model = oc_model c,
              cc_content = the (delta_content c),
              cc_role = (case delta0 c of None \<Rightarrow> None | Some d \<Rightarrow> d_role d),
              cc_finishReason = finish_reason0 c \<rparr>]
      else [])"

text \<open>
  The generator has no \<open>try\<close>: a rejection of \<open>create\<close> or of the iteration leaves it.
\<close>

definition chatCompletionStream :: "oa_chunk opened \<Rightarrow> completion_chunk generated" where
  "chatCompletionStream r =
     (case r of
        Inl e \<Rightarrow> ([], Some e)
      | Inr (cs, failure) \<Rightarrow> (concat (map chatCompletionStream_chunk cs), failure))"

subsection \<open>chatStream\<close>

text \<open>
  \<open>Date.now()\<close> is an input of the model: \<open>now k\<close> is what the \<open>k\<close>-th call of one
  invocation returns; the state counts the calls made so far.  The first call gives the
  stream's \<open>timestamp\<close>.
\<close>

record oa_state =
  oa_accumulatedContent :: string
  oa_clock :: nat

text \<open>
  The body of the loop over \<open>delta.tool_calls\<close>.  A fragment without a truthy \<open>id\<close>
  gets \<open>call_${Date.now()}\<close>.
\<close>

definition oa_tool_call_step ::
  "(nat \<Rightarrow> nat) \<Rightarrow> oa_chunk \<Rightarrow> nat \<Rightarrow> oa_state \<Rightarrow> oa_tool_call \<Rightarrow> stream_chunk list \<times> oa_state"
where
  "oa_tool_call_step now c ts s t =
     (let (tid, s') = (if truthy (oatc_id t) then (the (oatc_id t), s)
                       else (''call_'' @ dec (now (oa_clock s)),
                             s\<lparr> oa_clock := Suc (oa_clock s) \<rparr>));
          fname = (case oatc_function t of None \<Rightarrow> [] | Some f \<Rightarrow> or_str (oaf_name f) []);
          fargs = (case oatc_function t of None \<Rightarrow> [] | Some f \<Rightarrow> or_str (oaf_arguments f) [])
      in ([ToolCall (oc_id c) (oc_model c) ts
             \<lparr> tc_id = tid, tc_type = ''function'',
               tc_function = \<lparr> fn_name = fname, fn_arguments = fargs \<rparr> \<rparr>
             (or_num (oatc_index t) 0)], s'))"

definition oa_usage_of :: "oa_usage \<Rightarrow> usage" where
  "oa_usage_of u = \<lparr> promptTokens = or_num (prompt_tokens u) 0,
                     completionTokens = or_num (completion_tokens u) 0,
                     totalTokens = or_num (total_tokens u) 0 \<rparr>"

text \<open>The three consecutive \<open>if\<close>s of the body of the \<open>for await\<close> loop.\<close>

definition oa_content_step ::
  "nat \<Rightarrow> oa_state \<Rightarrow> oa_chunk \<Rightarrow> stream_chunk list \<times> oa_state"
where
  "oa_content_step ts s c =
     (if truthy (delta_content c)
      then (let acc = oa_accumulatedContent s @ the (delta_content c)
            in ([Content (oc_id c) (oc_model c) ts (the (delta_content c)) acc ''assistant''],
                s\<lparr> oa_accumulatedContent := acc \<rparr>))
      else ([], s))"

definition oa_tools_step ::
  "(nat \<Rightarrow> nat) \<Rightarrow> nat \<Rightarrow> oa_state \<Rightarrow> oa_chunk \<Rightarrow> stream_chunk list \<times> oa_state"
where
  "oa_tools_step now ts s c =
     (case (case delta0 c of None \<Rightarrow> None | Some d \<Rightarrow> d_tool_calls d) of
        None \<Rightarrow> ([], s)
      | Some tcs \<Rightarrow> for_each (oa_tool_call_step now c ts) s tcs)"

definition oa_done_step :: "nat \<Rightarrow> oa_chunk \<Rightarrow> stream_chunk list" where
  "oa_done_step ts c =
     (if truthy (finish_reason0 c)
      then [Done (oc_id c) (oc_model c) ts (the (finish_reason0 c))
              (map_option oa_usage_of (oc_usage c))]
      else [])"

definition oa_chunk_step ::
  "(nat \<Rightarrow> nat) \<Rightarrow> nat \<Rightarrow> oa_state \<Rightarrow> oa_chunk \<Rightarrow> stream_chunk list \<times> oa_state"
where
  "oa_chunk_step now ts s c =
     (case oa_content_step ts s c of
        (ys1, s1) \<Rightarrow>
          (case oa_tools_step now ts s1 c of
             (ys2, s2) \<Rightarrow> (ys1 @ ys2 @ oa_done_step ts c, s2)))"

text \<open>
  \<open>chatStream\<close>.  \<open>create\<close> is awaited before the \<open>try\<close>, so its rejection leaves the
  generator; a rejection of the iteration is caught and becomes an \<open>error\<close> chunk.
  \<open>generateId\<close> belongs to \<open>BaseAdapter\<close> of another package; the identifier it returns
  is the parameter \<open>gen_id\<close>.  \<open>omodel\<close> is \<open>options.model\<close>.
\<close>

definition oa_error_chunk :: "string \<Rightarrow> string option \<Rightarrow> nat \<Rightarrow> thrown \<Rightarrow> stream_chunk" where
  "oa_error_chunk gen_id omodel ts e =
     Error gen_id (or_str omodel ''gpt-3.5-turbo'') ts
       \<lparr> message = or_str (err_message e) ''Unknown error occurred'', code = err_code e \<rparr>"

definition oa_initial :: oa_state where
  "oa_initial = \<lparr> oa_accumulatedContent = [], oa_clock = 1 \<rparr>"

definition openai_chatStream ::
  "(nat \<Rightarrow> nat) \<Rightarrow> string \<Rightarrow> string option \<Rightarrow> oa_chunk opened \<Rightarrow> stream_chunk generated"
where
  "openai_chatStream now gen_id omodel r =
     (case r of
        Inl e \<Rightarrow> ([], Some e)
      | Inr (cs, failure) \<Rightarrow>
          (let ts = now 0;
               ys = fst (for_each (oa_chunk_step now ts) oa_initial cs)
           in case failure of
                None \<Rightarrow> (ys, None)
              | Some e \<Rightarrow> (ys @ [oa_error_chunk gen_id omodel ts e], None)))"

section \<open>The Gemini text adapter\<close>

subsection \<open>JSON values and the built-ins\<close>

text \<open>
  A JSON value.  An object is the list of its properties in the order in which JavaScript
  enumerates them, its keys distinct: the keys that are array indices first, in ascending
  numeric order, then the other keys in the order of their creation.  A number is an
  integer here: the code only tests numbers for zero.
\<close>

datatype json =
    JNull
  | JBool bool
  | JNumber int
  | JString string
  | JArray "json list"
  | JObject "(string \<times> json) list"

text \<open>
  What the adapter takes from its surroundings: the clock, the identifier generator
  \<open>generateId\<close> of \<open>../utils\<close> (\<open>generateId E k\<close> is the result of its \<open>k\<close>-th call),
  and the built-ins \<open>JSON.stringify\<close> and \<open>JSON.parse\<close>, the latter \<open>None\<close> where it throws
  a \<open>SyntaxError\<close>.
\<close>

record js_env =
  Date_now :: "nat \<Rightarrow> nat"
  generateId :: "nat \<Rightarrow> string"
  JSON_stringify :: "json \<Rightarrow> string"
  JSON_parse :: "string \<Rightarrow> json option"

text \<open>Truthiness of a JSON value, for \<open>functionCall.args || {}\<close>.\<close>

fun js_truthy :: "json \<Rightarrow> bool" where
  "js_truthy JNull = False"
| "js_truthy (JBool b) = b"
| "js_truthy (JNumber n) = (n \<noteq> 0)"
| "js_truthy (JString s) = (s \<noteq> [])"
| "js_truthy (JArray xs) = True"
| "js_truthy (JObject kvs) = True"

text \<open>
  An array index is a key that is the decimal numeral of a number below \<open>2^32 - 1\<close>:
  \<open>array_index k\<close> reads the key as a decimal number and accepts it if printing the number
  gives the key back (so \<open>01\<close>, \<open>-1\<close>, the empty key and \<open>a\<close> are ordinary keys).
\<close>

definition digit_val :: "char \<Rightarrow> nat" where
  "digit_val c = length (takeWhile (\<lambda>d. d \<noteq> c) ''0123456789'')"

definition decimal_value :: "string \<Rightarrow> nat" where
  "decimal_value k = foldl (\<lambda>n c. 10 * n + digit_val c) 0 k"

definition array_index :: "string \<Rightarrow> nat option" where
  "array_index k =
     (if decimal_value k < 4294967295 \<and> dec (decimal_value k) = k
      then Some (decimal_value k) else None)"

text \<open>
  Writing the property \<open>k\<close> of an ordinary object: an existing property keeps its place
  and takes the new value; a new array index goes before the first property that is not
  a smaller array index; any other new key goes to the end.
\<close>

fun insert_index :: "nat \<Rightarrow> string \<Rightarrow> 'v \<Rightarrow> (string \<times> 'v) list \<Rightarrow> (string \<times> 'v) list" where
  "insert_index n k v [] = [(k, v)]"
| "insert_index n k v (p # ps) =
     (case array_index (fst p) of
        Some m \<Rightarrow> (if m < n then p # insert_index n k v ps else (k, v) # p # ps)
      | None \<Rightarrow> (k, v) # p # ps)"

definition set_prop :: "string \<Rightarrow> 'v \<Rightarrow> (string \<times> 'v) list \<Rightarrow> (string \<times> 'v) list" where
  "set_prop k v ps =
     (case array_index k of
        Some n \<Rightarrow> (if map_of ps k = None then insert_index n k v ps else AList.update k v ps)
      | None \<Rightarrow> AList.update k v ps)"

text \<open>
  Object spread \<open>{ ...a, ...b }\<close>: the own enumerable properties of \<open>a\<close>, then those of
  \<open>b\<close>, are written to a fresh object, each source in its enumeration order.
  An array or a string spreads its indices, any other primitive nothing.
\<close>

fun own_props :: "json \<Rightarrow> (string \<times> json) list" where
  "own_props (JObject kvs) = kvs"
| "own_props (JArray xs) = zip (map dec [0..<length xs]) xs"
| "own_props (JString s) = zip (map dec [0..<length s]) (map (\<lambda>c. JString [c]) s)"
| "own_props v = []"

definition copy_props :: "(string \<times> json) list \<Rightarrow> (string \<times> json) list \<Rightarrow> (string \<times> json) list" where
  "copy_props target src = fold (\<lambda>(k, v) t. set_prop k v t) src target"

definition object_spread :: "json \<Rightarrow> json \<Rightarrow> json" where
  "object_spread a b = JObject (copy_props (copy_props [] (own_props a)) (own_props b))"

subsection \<open>Vendor chunks\<close>

record function_call =
  fc_id :: "string option"
  fc_name :: "string option"
  fc_args :: "json option"

record part =
  p_text :: "string option"
  p_thought :: "bool option"
  p_functionCall :: "function_call option"

datatype FinishReason =
    FINISH_REASON_UNSPECIFIED | STOP | MAX_TOKENS | SAFETY | RECITATION | LANGUAGE | OTHER
  | BLOCKLIST | PROHIBITED_CONTENT | SPII | MALFORMED_FUNCTION_CALL | IMAGE_SAFETY
  | UNEXPECTED_TOOL_CALL

record candidate =
  cand_parts :: "part list option"
  cand_finishReason :: "FinishReason option"

record usage_metadata =
  promptTokenCount :: "nat option"
  candidatesTokenCount :: "nat option"
  totalTokenCount :: "nat option"

record g_chunk =
  g_candidates :: "candidate list"
  g_data :: "string option"
  g_usageMetadata :: "usage_metadata option"

text \<open>\<open>chunk.candidates?.[0]?.content?.parts\<close> and \<open>chunk.candidates?.[0]?.finishReason\<close>.\<close>

definition parts0 :: "g_chunk \<Rightarrow> part list option" where
  "parts0 c = (case g_candidates c of [] \<Rightarrow> None | cand # _ \<Rightarrow> cand_parts cand)"

definition finishReason0 :: "g_chunk \<Rightarrow> FinishReason option" where
  "finishReason0 c = (case g_candidates c of [] \<Rightarrow> None | cand # _ \<Rightarrow> cand_finishReason cand)"

subsection \<open>processStreamChunks\<close>

record tool_call_data =
  tcd_name :: string
  tcd_args :: string
  tcd_index :: nat

text \<open>
  The local variables of \<open>processStreamChunks\<close>, and the numbers of calls made so far to
  \<open>Date.now()\<close> and \<open>generateId\<close>.  \<open>toolCallMap\<close> is a JavaScript \<open>Map\<close>: an association
  list in insertion order, \<open>get\<close> is \<open>map_of\<close>, \<open>set\<close> is \<open>AList.update\<close>.
\<close>

record g_state =
  accumulatedContent :: string
  toolCallMap :: "(string \<times> tool_call_data) list"
  nextToolIndex :: nat
  clock :: nat
  ids :: nat

text \<open>\<open>${functionCall.name}\<close> in a template literal: \<open>undefined\<close> prints as such.\<close>

definition template_str :: "string option \<Rightarrow> string" where
  "template_str s = (case s of None \<Rightarrow> ''undefined'' | Some v \<Rightarrow> v)"

text \<open>
  \<open>functionCall.id || `${functionCall.name}_${Date.now()}_${nextToolIndex}`\<close>
\<close>

definition tool_call_id :: "js_env \<Rightarrow> g_state \<Rightarrow> function_call \<Rightarrow> string \<times> g_state" where
  "tool_call_id E s fc =
     (if truthy (fc_id fc) then (the (fc_id fc), s)
      else (template_str (fc_name fc) @ ''_'' @ dec (Date_now E (clock s)) @ ''_''
              @ dec (nextToolIndex s),
            s\<lparr> clock := Suc (clock s) \<rparr>))"

text \<open>\<open>functionCall.args || {}\<close>\<close>

definition function_args :: "function_call \<Rightarrow> json" where
  "function_args fc =
     (case fc_args fc of
        None \<Rightarrow> JObject []
      | Some v \<Rightarrow> (if js_truthy v then v else JObject []))"

text \<open>\<open>typeof functionArgs === 'string' ? functionArgs : JSON.stringify(functionArgs)\<close>\<close>

definition args_text :: "js_env \<Rightarrow> json \<Rightarrow> string" where
  "args_text E a = (case a of JString s \<Rightarrow> s | _ \<Rightarrow> JSON_stringify E a)"

text \<open>
  The \<open>else\<close> branch for a call already in the map: parse both sides, spread, print;
  if a \<open>JSON.parse\<close> throws, the \<open>catch\<close> stores the fragment's arguments alone.
\<close>

definition merged_args :: "js_env \<Rightarrow> string \<Rightarrow> json \<Rightarrow> string" where
  "merged_args E existing functionArgs =
     (case JSON_parse E existing of
        None \<Rightarrow> args_text E functionArgs
      | Some existingArgs \<Rightarrow>
          (case (case functionArgs of JString s \<Rightarrow> JSON_parse E s | _ \<Rightarrow> Some functionArgs) of
             None \<Rightarrow> args_text E functionArgs
           | Some newArgs \<Rightarrow> JSON_stringify E (object_spread existingArgs newArgs)))"

text \<open>The block \<open>if (functionCall) { ... }\<close> of the loop over the parts.\<close>

definition function_call_step ::
  "js_env \<Rightarrow> string \<Rightarrow> nat \<Rightarrow> g_state \<Rightarrow> function_call \<Rightarrow> stream_chunk list \<times> g_state"
where
  "function_call_step E mdl ts s fc =
     (case tool_call_id E s fc of
        (toolCallId, s1) \<Rightarrow>
          (let functionArgs = function_args fc;
               toolCallData =
                 (case map_of (toolCallMap s1) toolCallId of
                    None \<Rightarrow> \<lparr> tcd_name = or_str (fc_name fc) [],
                               tcd_args = args_text E functionArgs,
                               tcd_index = nextToolIndex s1 \<rparr>
                  | Some d \<Rightarrow> d\<lparr> tcd_args := merged_args E (tcd_args d) functionArgs \<rparr>);
               s2 = s1\<lparr> toolCallMap := AList.update toolCallId toolCallData (toolCallMap s1),
                        nextToolIndex :=
                          (case map_of (toolCallMap s1) toolCallId of
                             None \<Rightarrow> Suc (nextToolIndex s1)
                           | Some d \<Rightarrow> nextToolIndex s1) \<rparr>
           in ([ToolCall (generateId E (ids s2)) mdl ts
                  \<lparr> tc_id = toolCallId, tc_type = ''function'',
                    tc_function = \<lparr> fn_name = tcd_name toolCallData,
                                    fn_arguments = tcd_args toolCallData \<rparr> \<rparr>
                  (tcd_index toolCallData)],
               s2\<lparr> ids := Suc (ids s2) \<rparr>)))"

text \<open>The block \<open>if (part.text) { ... }\<close>.\<close>

definition text_step ::
  "js_env \<Rightarrow> string \<Rightarrow> nat \<Rightarrow> g_state \<Rightarrow> part \<Rightarrow> stream_chunk list \<times> g_state"
where
  "text_step E mdl ts s p =
     (if truthy (p_text p)
      then (if p_thought p = Some True
            then ([Thinking (the (p_text p)) (generateId E (ids s)) mdl ts],
                  s\<lparr> ids := Suc (ids s) \<rparr>)
            else (let acc = accumulatedContent s @ the (p_text p)
                  in ([Content (generateId E (ids s)) mdl ts (the (p_text p)) acc ''assistant''],
                      s\<lparr> accumulatedContent := acc, ids := Suc (ids s) \<rparr>)))
      else ([], s))"

definition part_step ::
  "js_env \<Rightarrow> string \<Rightarrow> nat \<Rightarrow> g_state \<Rightarrow> part \<Rightarrow> stream_chunk list \<times> g_state"
where
  "part_step E mdl ts s p =
     (case text_step E mdl ts s p of
        (ys1, s1) \<Rightarrow>
          (case (case p_functionCall p of
                   None \<Rightarrow> ([], s1)
                 | Some fc \<Rightarrow> function_call_step E mdl ts s1 fc) of
             (ys2, s2) \<Rightarrow> (ys1 @ ys2, s2)))"

text \<open>The branch \<open>else if (chunk.data)\<close>.\<close>

definition data_step ::
  "js_env \<Rightarrow> string \<Rightarrow> nat \<Rightarrow> g_state \<Rightarrow> g_chunk \<Rightarrow> stream_chunk list \<times> g_state"
where
  "data_step E mdl ts s c =
     (if truthy (g_data c)
      then (let acc = accumulatedContent s @ the (g_data c)
            in ([Content (generateId E (ids s)) mdl ts (the (g_data c)) acc ''assistant''],
                s\<lparr> accumulatedContent := acc, ids := Suc (ids s) \<rparr>))
      else ([], s))"

text \<open>
  The loop body under \<open>finishReason === FinishReason.UNEXPECTED_TOOL_CALL\<close>: every
  function call of the chunk is \<open>set\<close> in the map under a new index, whatever the map holds.
\<close>

definition unexpected_part_step ::
  "js_env \<Rightarrow> string \<Rightarrow> nat \<Rightarrow> g_state \<Rightarrow> part \<Rightarrow> stream_chunk list \<times> g_state"
where
  "unexpected_part_step E mdl ts s p =
     (case p_functionCall p of
        None \<Rightarrow> ([], s)
      | Some fc \<Rightarrow>
          (case tool_call_id E s fc of
             (toolCallId, s1) \<Rightarrow>
               (let functionArgs = function_args fc;
                    s2 = s1\<lparr> toolCallMap :=
                               AList.update toolCallId
                                 \<lparr> tcd_name = or_str (fc_name fc) [],
                                   tcd_args = args_text E functionArgs,
                                   tcd_index = nextToolIndex s1 \<rparr>
                                 (toolCallMap s1),
                             nextToolIndex := Suc (nextToolIndex s1) \<rparr>
                in ([ToolCall (generateId E (ids s2)) mdl ts
                       \<lparr> tc_id = toolCallId, tc_type = ''function'',
                         tc_function = \<lparr> fn_name = or_str (fc_name fc) [],
                                         fn_arguments = args_text E functionArgs \<rparr> \<rparr>
                       (nextToolIndex s2 - 1)],
                    s2\<lparr> ids := Suc (ids s2) \<rparr>))))"

definition g_usage_of :: "usage_metadata \<Rightarrow> usage" where
  "g_usage_of u = \<lparr> promptTokens = (case promptTokenCount u of None \<Rightarrow> 0 | Some n \<Rightarrow> n),
                    completionTokens = (case candidatesTokenCount u of None \<Rightarrow> 0 | Some n \<Rightarrow> n),
                    totalTokens = (case totalTokenCount u of None \<Rightarrow> 0 | Some n \<Rightarrow> n) \<rparr>"

definition max_tokens_message :: string where
  "max_tokens_message =
     ''The response was cut off because the maximum token limit was reached.''"

text \<open>The block \<open>if (chunk.candidates?.[0]?.finishReason) { ... }\<close>.\<close>

definition finish_step ::
  "js_env \<Rightarrow> string \<Rightarrow> nat \<Rightarrow> g_state \<Rightarrow> g_chunk \<Rightarrow> stream_chunk list \<times> g_state"
where
  "finish_step E mdl ts s c =
     (case finishReason0 c of
        None \<Rightarrow> ([], s)
      | Some fr \<Rightarrow>
          (case (if fr = UNEXPECTED_TOOL_CALL
                 then (case parts0 c of
                         None \<Rightarrow> ([], s)
                       | Some ps \<Rightarrow> for_each (unexpected_part_step E mdl ts) s ps)
                 else ([], s)) of
             (ys1, s1) \<Rightarrow>
               (case (if fr = MAX_TOKENS
                      then ([Error (generateId E (ids s1)) mdl ts
                               \<lparr> message = max_tokens_message, code = None \<rparr>],
                            s1\<lparr> ids := Suc (ids s1) \<rparr>)
                      else ([], s1)) of
                  (ys2, s2) \<Rightarrow>
                    (ys1 @ ys2 @
                     [Done (generateId E (ids s2)) mdl ts
                        (if toolCallMap s2 \<noteq> [] then ''tool_calls'' else ''stop'')
                        (map_option g_usage_of (g_usageMetadata c))],
                     s2\<lparr> ids := Suc (ids s2) \<rparr>))))"

text \<open>The body of the \<open>for await\<close> loop.\<close>

definition g_chunk_step ::
  "js_env \<Rightarrow> string \<Rightarrow> nat \<Rightarrow> g_state \<Rightarrow> g_chunk \<Rightarrow> stream_chunk list \<times> g_state"
where
  "g_chunk_step E mdl ts s c =
     (case (case parts0 c of
              Some ps \<Rightarrow> for_each (part_step E mdl ts) s ps
            | None \<Rightarrow> data_step E mdl ts s c) of
        (ys1, s1) \<Rightarrow>
          (case finish_step E mdl ts s1 c of (ys2, s2) \<Rightarrow> (ys1 @ ys2, s2)))"

definition g_initial :: g_state where
  "g_initial = \<lparr> accumulatedContent = [], toolCallMap = [], nextToolIndex = 0,
                 clock = 1, ids = 0 \<rparr>"

text \<open>
  \<open>processStreamChunks\<close> has no \<open>try\<close>: a rejection of the iteration leaves it after the
  chunks yielded so far.  The final state is returned too, for the caller's \<open>catch\<close>.
\<close>

definition processStreamChunks ::
  "js_env \<Rightarrow> string \<Rightarrow> g_chunk vendor_stream \<Rightarrow> stream_chunk generated \<times> g_state"
where
  "processStreamChunks E mdl r =
     (case for_each (g_chunk_step E mdl (Date_now E 0)) g_initial (fst r) of
        (ys, s) \<Rightarrow> ((ys, snd r), s))"

text \<open>
  \<open>chatStream\<close>: \<open>generateContentStream\<close> and the delegation to \<open>processStreamChunks\<close>
  are both inside the \<open>try\<close>.  An \<open>Error\<close> always has a string \<open>message\<close>.
\<close>

definition g_error_message :: "thrown \<Rightarrow> string" where
  "g_error_message e =
     (if is_Error e then (case err_message e of None \<Rightarrow> [] | Some m \<Rightarrow> m)
      else ''An unknown error occurred during the chat stream.'')"

definition gemini_chatStream ::
  "js_env \<Rightarrow> string \<Rightarrow> g_chunk opened \<Rightarrow> stream_chunk generated"
where
  "gemini_chatStream E mdl r =
     (case r of
        Inl e \<Rightarrow>
          ([Error (generateId E 0) mdl (Date_now E 0)
              \<lparr> message = g_error_message e, code = None \<rparr>], None)
      | Inr vs \<Rightarrow>
          (case processStreamChunks E mdl vs of
             ((ys, None), s) \<Rightarrow> (ys, None)
           | ((ys, Some e), s) \<Rightarrow>
               (ys @ [Error (generateId E (ids s)) mdl (Date_now E (clock s))
                        \<lparr> message = g_error_message e, code = None \<rparr>], None)))"

section \<open>The response bridge (stream-to-response.ts) and the PHP servers\<close>

text \<open>
  A canonical chunk as the JavaScript object the adapters build, its properties in the
  order of the object literals; \<open>JSON.stringify\<close> leaves out a property that is
  \<open>undefined\<close> (\<open>usage\<close>, \<open>code\<close>).
\<close>

definition usage_json :: "usage \<Rightarrow> json" where
  "usage_json u =
     JObject [(''promptTokens'', JNumber (int (promptTokens u))),
              (''completionTokens'', JNumber (int (completionTokens u))),
              (''totalTokens'', JNumber (int (totalTokens u)))]"

definition error_json :: "error_info \<Rightarrow> json" where
  "error_json e =
     JObject ((''message'', JString (message e))
              # (case code e of None \<Rightarrow> [] | Some c \<Rightarrow> [(''code'', JString c)]))"

definition tool_call_json :: "tool_call \<Rightarrow> json" where
  "tool_call_json t =
     JObject [(''id'', JString (tc_id t)), (''type'', JString (tc_type t)),
              (''function'',
               JObject [(''name'', JString (fn_name (tc_function t))),
                        (''arguments'', JString (fn_arguments (tc_function t)))])]"

fun chunk_json :: "stream_chunk \<Rightarrow> json" where
  "chunk_json (Content i m t d c r) =
     JObject [(''type'', JString ''content''), (''id'', JString i), (''model'', JString m),
              (''timestamp'', JNumber (int t)), (''delta'', JString d),
              (''content'', JString c), (''role'', JString r)]"
| "chunk_json (Thinking c i m t) =
     JObject [(''type'', JString ''thinking''), (''content'', JString c), (''id'', JString i),
              (''model'', JString m), (''timestamp'', JNumber (int t))]"
| "chunk_json (ToolCall i m t tc ix) =
     JObject [(''type'', JString ''tool_call''), (''id'', JString i), (''model'', JString m),
              (''timestamp'', JNumber (int t)), (''toolCall'', tool_call_json tc),
              (''index'', JNumber (int ix))]"
| "chunk_json (Done i m t fr u) =
     JObject ([(''type'', JString ''done''), (''id'', JString i), (''model'', JString m),
               (''timestamp'', JNumber (int t)), (''finishReason'', JString fr)]
              @ (case u of None \<Rightarrow> [] | Some v \<Rightarrow> [(''usage'', usage_json v)]))"
| "chunk_json (Error i m t e) =
     JObject [(''type'', JString ''error''), (''id'', JString i), (''model'', JString m),
              (''timestamp'', JNumber (int t)), (''error'', error_json e)]"

text \<open>Two line feeds end a record; the completion marker is a record of its own.\<close>

definition sse_record :: "string \<Rightarrow> string" where
  "sse_record payload = ''data: '' @ payload @ [CHR 0x0A, CHR 0x0A]"

definition done_marker :: string where
  "done_marker = sse_record ''[DONE]''"

text \<open>
  \<open>toReadableStream\<close>: what \<open>start\<close> enqueues before it closes the controller.  The source
  is drained inside a \<open>try\<close>; if it throws, the \<open>catch\<close> enqueues one record with the
  object \<open>{ type: "error", error: { message, code } }\<close> and closes, without the marker.
  \<open>S\<close> is \<open>JSON.stringify\<close>; the encoding to bytes is left out.
\<close>

definition caught_error_json :: "thrown \<Rightarrow> json" where
  "caught_error_json e =
     JObject [(''type'', JString ''error''),
              (''error'', error_json \<lparr> message = or_str (err_message e) ''Unknown error occurred'',
                                        code = err_code e \<rparr>)]"

definition toReadableStream :: "(json \<Rightarrow> string) \<Rightarrow> stream_chunk generated \<Rightarrow> string list" where
  "toReadableStream S src =
     map (\<lambda>c. sse_record (S (chunk_json c))) (fst src)
     @ (case snd src of
          None \<Rightarrow> [done_marker]
        | Some e \<Rightarrow> [sse_record (S (caught_error_json e))])"

text \<open>
  Modelled from the spec: \<open>SSEFormatter::formatChunk\<close> and \<open>SSEFormatter::formatDone\<close> of
  the PHP package, which the servers call and whose code is not in the files modelled
  here.  The spec gives the records as \<open>data: <json-encoded event>\<close> and \<open>data: [DONE]\<close>,
  each ended by two line feeds.  \<open>enc\<close> is PHP's \<open>json_encode\<close> on a chunk.
\<close>

definition formatChunk :: "('c \<Rightarrow> string) \<Rightarrow> 'c \<Rightarrow> string" where
  "formatChunk enc c = sse_record (enc c)"

definition formatDone :: string where
  "formatDone = sse_record ''[DONE]''"

text \<open>
  The streaming part of the \<open>POST /chat\<close> handler of the PHP servers: what it echoes.
  \<open>createStreamed\<close>, the iteration and the conversion are inside one \<open>try\<close>; the \<open>catch\<close>
  echoes \<open>convertError\<close> of the exception and exits.  \<open>convertEvent\<close> and \<open>convertError\<close>
  belong to \<open>StreamChunkConverter\<close> and are parameters.
\<close>

definition php_chat_stream ::
  "('c \<Rightarrow> string) \<Rightarrow> ('ev \<Rightarrow> 'c list) \<Rightarrow> (thrown \<Rightarrow> 'c) \<Rightarrow> 'ev opened \<Rightarrow> string list"
where
  "php_chat_stream enc convertEvent convertError r =
     (case r of
        Inl e \<Rightarrow> [formatChunk enc (convertError e)]
      | Inr (events, failure) \<Rightarrow>
          map (formatChunk enc) (concat (map convertEvent events))
          @ (case failure of
               None \<Rightarrow> [formatDone]
             | Some e \<Rightarrow> [formatChunk enc (convertError e)]))"

section \<open>The tool-calling loop (function demo)\<close>

record message =
  msg_role :: string
  msg_content :: "string option"
  msg_toolCalls :: "tool_call list option"
  msg_toolCallId :: "string option"
  msg_name :: "string option"

text \<open>
  What the loop takes from its surroundings: \<open>ai.streamChat\<close> (of the class \<open>AI\<close> of
  another package), as the chunks it delivers for the messages it is given and the
  exception that ends the iteration, if any; \<open>JSON.parse\<close>; and the tool \<open>calculate\<close>, which
  catches its own errors and always returns a text.  Its argument is the property
  \<open>expression\<close> of the parsed arguments, \<open>None\<close> for \<open>undefined\<close>.
\<close>

record demo_env =
  streamChat :: "message list \<Rightarrow> stream_chunk generated"
  parse_arguments :: "string \<Rightarrow> json option"
  calculate :: "json option \<Rightarrow> string"

text \<open>The locals of one iteration: \<open>toolCalls\<close>, \<open>toolCallsMap\<close> (keyed by index), \<open>content\<close>.\<close>

record pending_call =
  pc_id :: string
  pc_name :: string
  pc_args :: string

record round_state =
  rs_toolCalls :: "tool_call list"
  rs_toolCallsMap :: "(nat \<times> pending_call) list"
  rs_content :: string

definition round_initial :: round_state where
  "round_initial = \<lparr> rs_toolCalls = [], rs_toolCallsMap = [], rs_content = [] \<rparr>"

text \<open>The body of the \<open>for await\<close> loop over the chunks of one round.\<close>

fun on_chunk :: "stream_chunk \<Rightarrow> round_state \<Rightarrow> round_state" where
  "on_chunk (Content i m t d c r) st = st\<lparr> rs_content := c \<rparr>"
| "on_chunk (ToolCall i m t tc ix) st =
     (let existing = (case map_of (rs_toolCallsMap st) ix of
                        Some e \<Rightarrow> e
                      | None \<Rightarrow> \<lparr> pc_id = tc_id tc, pc_name = [], pc_args = [] \<rparr>);
          named = (if fn_name (tc_function tc) \<noteq> []
                   then existing\<lparr> pc_name := fn_name (tc_function tc) \<rparr> else existing);
          grown = named\<lparr> pc_args := pc_args named @ fn_arguments (tc_function tc) \<rparr>
      in st\<lparr> rs_toolCallsMap := AList.update ix grown (rs_toolCallsMap st) \<rparr>)"
| "on_chunk (Done i m t fr u) st =
     (if fr = ''tool_calls''
      then st\<lparr> rs_toolCalls := rs_toolCalls st
                  @ map (\<lambda>(ix, call). \<lparr> tc_id = pc_id call, tc_type = ''function'',
                                          tc_function = \<lparr> fn_name = pc_name call,
                                                          fn_arguments = pc_args call \<rparr> \<rparr>)
                      (rs_toolCallsMap st) \<rparr>
      else st)"
| "on_chunk (Thinking c i m t) st = st"
| "on_chunk (Error i m t e) st = st"

text \<open>
  How an iteration can leave the loop through the enclosing \<open>try\<close>: the stream rejects,
  \<open>JSON.parse\<close> throws a \<open>SyntaxError\<close>, or \<open>.expression\<close> is read from \<open>null\<close>.
\<close>

datatype demo_exception = Stream_rejected thrown | JSON_SyntaxError | Null_TypeError

text \<open>
  The loop \<open>for (const call of toolCalls)\<close>: the messages after it, and the exception
  that interrupted it, if any.  The pushes made before the exception stay.
\<close>

fun execute_tools ::
  "demo_env \<Rightarrow> message list \<Rightarrow> tool_call list \<Rightarrow> message list \<times> demo_exception option"
where
  "execute_tools P messages [] = (messages, None)"
| "execute_tools P messages (call # calls) =
     (case parse_arguments P (fn_arguments (tc_function call)) of
        None \<Rightarrow> (messages, Some JSON_SyntaxError)
      | Some JNull \<Rightarrow> (messages, Some Null_TypeError)
      | Some v \<Rightarrow>
          execute_tools P
            (messages @ [\<lparr> msg_role = ''tool'',
                           msg_content =
                             Some (calculate P
                                     (case v of JObject kvs \<Rightarrow> map_of kvs ''expression''
                                      | _ \<Rightarrow> None)),
                           msg_toolCalls = None,
                           msg_toolCallId = Some (tc_id call),
                           msg_name = Some (fn_name (tc_function call)) \<rparr>])
            calls)"

datatype demo_status = Complete | Failed demo_exception

record demo_result =
  final_messages :: "message list"
  final_iteration :: nat
  status :: demo_status

text \<open>
  The \<open>while (iteration < maxIterations)\<close> loop inside the \<open>try\<close>.  In the source
  \<open>maxIterations\<close> is the constant 2 and \<open>iteration\<close> starts at 0; both are arguments here.
\<close>

function demo_loop :: "demo_env \<Rightarrow> nat \<Rightarrow> nat \<Rightarrow> message list \<Rightarrow> demo_result" where
  "demo_loop P maxIterations iteration messages =
     (if iteration < maxIterations
      then (case streamChat P messages of
              (chunks, Some e) \<Rightarrow>
                \<lparr> final_messages = messages, final_iteration = Suc iteration,
                  status = Failed (Stream_rejected e) \<rparr>
            | (chunks, None) \<Rightarrow>
                (let st = fold on_chunk chunks round_initial
                 in if rs_toolCalls st \<noteq> []
                    then (case execute_tools P
                                 (messages @ [\<lparr> msg_role = ''assistant'',
                                                msg_content = (if rs_content st = [] then None
                                                               else Some (rs_content st)),
                                                msg_toolCalls = Some (rs_toolCalls st),
                                                msg_toolCallId = None, msg_name = None \<rparr>])
                                 (rs_toolCalls st) of
                            (messages', Some x) \<Rightarrow>
                              \<lparr> final_messages = messages', final_iteration = Suc iteration,
                                status = Failed x \<rparr>
                          | (messages', None) \<Rightarrow>
                              demo_loop P maxIterations (Suc iteration) messages')
                    else \<lparr> final_messages = messages, final_iteration = Suc iteration,
                           status = Complete \<rparr>))
      else \<lparr> final_messages = messages, final_iteration = iteration, status = Complete \<rparr>)"
  by pat_completeness auto
termination
  by (relation "measure (\<lambda>(P, maxIterations, iteration, messages). maxIterations - iteration)")
    auto

declare demo_loop.simps [simp del]

section \<open>Vocabulary of the statements and concrete inputs\<close>

text \<open>The chunks of type \<open>content\<close> of an emitted sequence, in emission order.\<close>

definition content_chunks :: "stream_chunk list \<Rightarrow> stream_chunk list" where
  "content_chunks ys = filter is_content ys"

text \<open>
  \<open>running a ds\<close> lists the accumulated texts a stream shows when it starts from the text
  \<open>a\<close> and emits the deltas \<open>ds\<close>; \<open>accumulates a ys a'\<close> says that the content chunks of
  \<open>ys\<close> show exactly these texts and that \<open>a'\<close> is the text after the last of them.
\<close>

fun running :: "string \<Rightarrow> string list \<Rightarrow> string list" where
  "running a [] = []"
| "running a (d # ds) = (a @ d) # running (a @ d) ds"

definition accumulates :: "string \<Rightarrow> stream_chunk list \<Rightarrow> string \<Rightarrow> bool" where
  "accumulates a ys a' \<longleftrightarrow>
     map content (filter is_content ys) = running a (map delta (filter is_content ys))
     \<and> a' = a @ concat (map delta (filter is_content ys))"

text \<open>Vendor chunks of an OpenAI stream used as concrete inputs.\<close>

definition ex_oa_text :: "string \<Rightarrow> oa_chunk" where
  "ex_oa_text t =
     \<lparr> oc_id = ''chatcmpl-1'', oc_model = ''gpt-4o'',
       oc_choices = [\<lparr> ch_delta = Some \<lparr> d_content = Some t, d_role = None,
                                           d_tool_calls = None \<rparr>,
                       ch_finish_reason = None \<rparr>],
       oc_usage = None \<rparr>"

definition ex_oa_finish :: "string \<Rightarrow> oa_chunk" where
  "ex_oa_finish r =
     \<lparr> oc_id = ''chatcmpl-1'', oc_model = ''gpt-4o'',
       oc_choices = [\<lparr> ch_delta = Some \<lparr> d_content = None, d_role = None,
                                           d_tool_calls = None \<rparr>,
                       ch_finish_reason = Some r \<rparr>],
       oc_usage = None \<rparr>"

text \<open>
  A concrete environment for the examples: a clock that advances by one millisecond per
  call, numbered identifiers, a printer that agrees with \<open>JSON.stringify\<close> on values whose
  strings need no escaping, and \<open>JSON.parse\<close> on the few texts the examples use (it
  rejects, among others, the empty text, as \<open>JSON.parse\<close> does).
\<close>

fun join :: "string list \<Rightarrow> string" where
  "join [] = []"
| "join [x] = x"
| "join (x # y # zs) = x @ '','' @ join (y # zs)"

fun ex_stringify :: "json \<Rightarrow> string" where
  "ex_stringify JNull = ''null''"
| "ex_stringify (JBool b) = (if b then ''true'' else ''false'')"
| "ex_stringify (JNumber n) = (if n < 0 then ''-'' @ dec (nat (- n)) else dec (nat n))"
| \<open>ex_stringify (JString s) = ''"'' @ s @ ''"''\<close>
| "ex_stringify (JArray xs) = ''['' @ join (map ex_stringify xs) @ '']''"
| \<open>ex_stringify (JObject kvs) =
     ''{'' @ join (map (\<lambda>kv. ''"'' @ fst kv @ ''":'' @ ex_stringify (snd kv)) kvs) @ ''}''\<close>

definition ex_parse :: "string \<Rightarrow> json option" where
  \<open>ex_parse s =
     (if s = ''{}'' then Some (JObject [])
      else if s = ''{"a":1}'' then Some (JObject [(''a'', JNumber 1)])
      else if s = ''{"a":2}'' then Some (JObject [(''a'', JNumber 2)])
      else if s = ''{"b":2}'' then Some (JObject [(''b'', JNumber 2)])
      else if s = ''{"a":1,"b":2}'' then Some (JObject [(''a'', JNumber 1), (''b'', JNumber 2)])
      else if s = ''{"expression":"2+2"}'' then Some (JObject [(''expression'', JString ''2+2'')])
      else if s = ''null'' then Some JNull
      else None)\<close>

definition ex_env :: js_env where
  "ex_env = \<lparr> Date_now = (\<lambda>k. 1700 + k), generateId = (\<lambda>k. ''gemini-'' @ dec k),
              JSON_stringify = ex_stringify, JSON_parse = ex_parse \<rparr>"

text \<open>Vendor chunks of a Gemini stream used as concrete inputs.\<close>

definition ex_g_parts :: "part list \<Rightarrow> FinishReason option \<Rightarrow> g_chunk" where
  "ex_g_parts ps fr =
     \<lparr> g_candidates = [\<lparr> cand_parts = Some ps, cand_finishReason = fr \<rparr>],
       g_data = None, g_usageMetadata = None \<rparr>"

definition ex_text_part :: "string \<Rightarrow> part" where
  "ex_text_part t = \<lparr> p_text = Some t, p_thought = None, p_functionCall = None \<rparr>"

definition ex_call_part :: "string option \<Rightarrow> string option \<Rightarrow> json option \<Rightarrow> part" where
  "ex_call_part i n a =
     \<lparr> p_text = None, p_thought = None,
       p_functionCall = Some \<lparr> fc_id = i, fc_name = n, fc_args = a \<rparr> \<rparr>"

text \<open>
  \<open>done_track b ys\<close>: every \<open>done\<close> chunk of \<open>ys\<close> reports \<open>tool_calls\<close> if a
  \<open>tool_call\<close> chunk precedes it in \<open>ys\<close> (or \<open>b\<close> holds at the start), and \<open>stop\<close>
  otherwise.  \<open>tracks s ys s'\<close> ties this to the adapter's map: it is non-empty after a
  step exactly if it was before or the step emitted a \<open>tool_call\<close> chunk.
\<close>

fun done_track :: "bool \<Rightarrow> stream_chunk list \<Rightarrow> bool" where
  "done_track b [] = True"
| "done_track b (y # ys) =
     ((if is_done y then finishReason y = (if b then ''tool_calls'' else ''stop'') else True)
      \<and> done_track (b \<or> is_tool_call y) ys)"

definition tracks :: "g_state \<Rightarrow> stream_chunk list \<Rightarrow> g_state \<Rightarrow> bool" where
  "tracks s ys s' \<longleftrightarrow>
     done_track (toolCallMap s \<noteq> []) ys
     \<and> (toolCallMap s' \<noteq> []) = (toolCallMap s \<noteq> [] \<or> (\<exists>y \<in> set ys. is_tool_call y))"

text \<open>
  A terminal chunk is a \<open>done\<close> or an \<open>error\<close> chunk.  \<open>terminated_once ys\<close>: the sequence
  \<open>ys\<close> ends with a terminal chunk and holds no other.
\<close>

definition is_terminal :: "stream_chunk \<Rightarrow> bool" where
  "is_terminal y \<longleftrightarrow> is_done y \<or> is_error y"

definition terminated_once :: "stream_chunk list \<Rightarrow> bool" where
  "terminated_once ys \<longleftrightarrow>
     ys \<noteq> [] \<and> is_terminal (last ys) \<and> filter is_terminal (butlast ys) = []"

text \<open>
  A vendor stream that finishes once: it ends normally and only its last chunk carries a
  finish reason, or it fails and no chunk carried one.  For Gemini the finish reason of the
  last chunk is moreover not \<open>MAX_TOKENS\<close>.
\<close>

definition oa_finishes_once :: "oa_chunk vendor_stream \<Rightarrow> bool" where
  "oa_finishes_once vs =
     (case snd vs of
        None \<Rightarrow> fst vs \<noteq> [] \<and> truthy (finish_reason0 (last (fst vs)))
                 \<and> list_all (\<lambda>c. \<not> truthy (finish_reason0 c)) (butlast (fst vs))
      | Some e \<Rightarrow> list_all (\<lambda>c. \<not> truthy (finish_reason0 c)) (fst vs))"

definition g_finishes_once :: "g_chunk vendor_stream \<Rightarrow> bool" where
  "g_finishes_once vs =
     (case snd vs of
        None \<Rightarrow> fst vs \<noteq> [] \<and> finishReason0 (last (fst vs)) \<noteq> None
                 \<and> finishReason0 (last (fst vs)) \<noteq> Some MAX_TOKENS
                 \<and> list_all (\<lambda>c. finishReason0 c = None) (butlast (fst vs))
      | Some e \<Rightarrow> list_all (\<lambda>c. finishReason0 c = None) (fst vs))"

text \<open>The map of an adapter state that holds one call \<open>c1\<close> of \<open>calc\<close> with arguments \<open>a\<close>.\<close>

definition ex_g_state :: "string \<Rightarrow> g_state" where
  "ex_g_state a =
     \<lparr> accumulatedContent = [],
       toolCallMap = [(''c1'', \<lparr> tcd_name = ''calc'', tcd_args = a, tcd_index = 0 \<rparr>)],
       nextToolIndex = 1, clock = 1, ids = 1 \<rparr>"

text \<open>
  \<open>keeps_identity s s'\<close>: every record of the map of \<open>s\<close> is still in the map of \<open>s'\<close>,
  under the same key, with the same name and the same index.
\<close>

definition keeps_identity :: "g_state \<Rightarrow> g_state \<Rightarrow> bool" where
  "keeps_identity s s' \<longleftrightarrow>
     (\<forall>k d. map_of (toolCallMap s) k = Some d \<longrightarrow>
        map_option tcd_name (map_of (toolCallMap s') k) = Some (tcd_name d)
        \<and> map_option tcd_index (map_of (toolCallMap s') k) = Some (tcd_index d))"

text \<open>The keys under which an emitted sequence reports its tool calls, in emission order.\<close>

definition call_ids :: "stream_chunk list \<Rightarrow> string list" where
  "call_ids ys = map (\<lambda>y. tc_id (toolCall y)) (filter is_tool_call ys)"

text \<open>No function call of the vendor chunks carries a (truthy) vendor id.\<close>

definition no_vendor_ids :: "g_chunk list \<Rightarrow> bool" where
  "no_vendor_ids cs =
     list_all (\<lambda>c. case parts0 c of
                      None \<Rightarrow> True
                    | Some ps \<Rightarrow>
                        list_all (\<lambda>p. case p_functionCall p of
                                         None \<Rightarrow> True
                                       | Some fc \<Rightarrow> \<not> truthy (fc_id fc)) ps) cs"

text \<open>
  \<open>key_below n k\<close>: the key \<open>k\<close> ends with \<open>_i\<close> for a counter value \<open>i < n\<close>.
  \<open>keys_below s\<close>: every key of the map was made from a counter value that is used up.
\<close>

definition key_below :: "nat \<Rightarrow> string \<Rightarrow> bool" where
  "key_below n k \<longleftrightarrow> (\<exists>p i. k = p @ ''_'' @ dec i \<and> i < n)"

definition keys_below :: "g_state \<Rightarrow> bool" where
  "keys_below s \<longleftrightarrow> (\<forall>k \<in> fst ` set (toolCallMap s). key_below (nextToolIndex s) k)"

definition fresh_keys :: "g_state \<Rightarrow> stream_chunk list \<Rightarrow> g_state \<Rightarrow> bool" where
  "fresh_keys s ys s' \<longleftrightarrow>
     (keys_below s \<longrightarrow>
        keys_below s' \<and> nextToolIndex s \<le> nextToolIndex s' \<and> distinct (call_ids ys)
        \<and> (\<forall>k \<in> set (call_ids ys).
              key_below (nextToolIndex s') k \<and> \<not> key_below (nextToolIndex s) k))"

text \<open>
  A tool-execution round appends one assistant message that carries tool calls;
  \<open>tool_rounds\<close> counts them.  \<open>requests_tools P messages\<close>: for these messages the stream
  ends normally, the round collects at least one tool call, and the arguments of every
  collected call parse as a JSON value other than \<open>null\<close>.
\<close>

definition tool_rounds :: "message list \<Rightarrow> nat" where
  "tool_rounds messages =
     length (filter (\<lambda>m. msg_role m = ''assistant'' \<and> msg_toolCalls m \<noteq> None) messages)"

definition parses :: "demo_env \<Rightarrow> tool_call \<Rightarrow> bool" where
  "parses P call =
     (case parse_arguments P (fn_arguments (tc_function call)) of
        None \<Rightarrow> False
      | Some v \<Rightarrow> v \<noteq> JNull)"

definition requests_tools :: "demo_env \<Rightarrow> message list \<Rightarrow> bool" where
  "requests_tools P messages =
     (case streamChat P messages of
        (chunks, Some e) \<Rightarrow> False
      | (chunks, None) \<Rightarrow>
          rs_toolCalls (fold on_chunk chunks round_initial) \<noteq> []
          \<and> list_all (parses P) (rs_toolCalls (fold on_chunk chunks round_initial)))"

text \<open>A model that answers every request with one call of \<open>calculate\<close> with arguments \<open>a\<close>.\<close>

definition ex_demo_env :: "string \<Rightarrow> demo_env" where
  "ex_demo_env a =
     \<lparr> streamChat = (\<lambda>messages.
         ([ToolCall ''chatcmpl-1'' ''gpt-3.5-turbo'' 1700
             \<lparr> tc_id = ''call_1'', tc_type = ''function'',
               tc_function = \<lparr> fn_name = ''calculate'', fn_arguments = a \<rparr> \<rparr> 0,
           Done ''chatcmpl-1'' ''gpt-3.5-turbo'' 1700 ''tool_calls'' None], None)),
       parse_arguments = ex_parse,
       calculate = (\<lambda>expression. ''4'') \<rparr>"

definition ex_user_message :: message where
  "ex_user_message =
     \<lparr> msg_role = ''user'', msg_content = Some ''What is 2+2?'', msg_toolCalls = None,
       msg_toolCallId = None, msg_name = None \<rparr>"

text \<open>
  \<open>js_ordered ks\<close>: the keys \<open>ks\<close> are in enumeration order, that is, a key that is an
  array index is preceded only by smaller array indices.
\<close>

fun js_ordered :: "string list \<Rightarrow> bool" where
  "js_ordered [] = True"
| "js_ordered [k] = True"
| "js_ordered (k # k' # ks) =
     ((case array_index k' of
         Some n \<Rightarrow> (case array_index k of Some m \<Rightarrow> m < n | None \<Rightarrow> False)
       | None \<Rightarrow> True)
      \<and> js_ordered (k' # ks))"

section \<open>Properties\<close>

subsection \<open>Loops\<close>

lemma for_each_append:
  "for_each body s (xs @ ys) =
     (case for_each body s xs of
        (us, s') \<Rightarrow> (case for_each body s' ys of (vs, s'') \<Rightarrow> (us @ vs, s'')))"
  by (induction xs arbitrary: s) (auto split: prod.splits)

lemma for_each_rel:
  assumes refl: "\<And>s. R s [] s"
    and trans: "\<And>s ys s1 zs s2. R s ys s1 \<Longrightarrow> R s1 zs s2 \<Longrightarrow> R s (ys @ zs) s2"
    and step: "\<And>s x. x \<in> set xs \<Longrightarrow> R s (fst (body s x)) (snd (body s x))"
  shows "R s (fst (for_each body s xs)) (snd (for_each body s xs))"
  using step
proof (induction xs arbitrary: s)
  case Nil
  show ?case by (simp add: refl)
next
  case (Cons x xs)
  obtain ys s' where b: "body s x = (ys, s')" by (cases "body s x")
  obtain zs s'' where r: "for_each body s' xs = (zs, s'')" by (cases "for_each body s' xs")
  from Cons.prems [of x s] b have 1: "R s ys s'" by simp
  from Cons.IH [of s'] Cons.prems r have 2: "R s' zs s''" by simp
  from trans [OF 1 2] b r show ?case by simp
qed

subsection \<open>Decimal numerals\<close>

lemma digit_char_inj: "a < 10 \<Longrightarrow> b < 10 \<Longrightarrow> digit_char a = digit_char b \<Longrightarrow> a = b"
proof -
  assume a: "a < 10" and b: "b < 10" and e: "digit_char a = digit_char b"
  have d: "distinct ''0123456789''" by simp
  have l: "length ''0123456789'' = 10" by simp
  from nth_eq_iff_index_eq [OF d, of a b] a b e l show ?thesis
    by (simp add: digit_char_def)
qed

lemma digit_char_digit: "a < 10 \<Longrightarrow> digit_char a \<in> set ''0123456789''"
proof -
  assume "a < 10"
  then have "a < length ''0123456789''" by simp
  then have "''0123456789'' ! a \<in> set ''0123456789''" by (rule nth_mem)
  then show ?thesis by (simp only: digit_char_def)
qed

lemma dec_not_Nil: "dec n \<noteq> []"
  by (subst dec.simps) simp

lemma dec_digits: "set (dec n) \<subseteq> set ''0123456789''"
proof (induction n rule: dec.induct)
  case (1 n)
  show ?case
  proof (cases "n < 10")
    case True
    with digit_char_digit [of n] show ?thesis by (subst dec.simps) simp
  next
    case False
    have "n mod 10 < 10" by simp
    from digit_char_digit [OF this] 1 [OF False] False show ?thesis
      by (subst dec.simps) simp
  qed
qed

lemma dec_no_underscore: "CHR ''_'' \<notin> set (dec n)"
  using dec_digits [of n] by auto

lemma dec_inj: "dec i = dec j \<Longrightarrow> i = j"
proof (induction i arbitrary: j rule: dec.induct)
  case (1 i)
  show ?case
  proof (cases "i < 10")
    case True
    then have di: "dec i = [digit_char i]" by (subst dec.simps) simp
    show ?thesis
    proof (cases "j < 10")
      case jt: True
      then have "dec j = [digit_char j]" by (subst dec.simps) simp
      with di "1.prems" True jt digit_char_inj show ?thesis by simp
    next
      case False
      then have "dec j = dec (j div 10) @ [digit_char (j mod 10)]" by (subst dec.simps) simp
      with di "1.prems" dec_not_Nil [of "j div 10"] show ?thesis by simp
    qed
  next
    case False
    then have di: "dec i = dec (i div 10) @ [digit_char (i mod 10)]" by (subst dec.simps) simp
    show ?thesis
    proof (cases "j < 10")
      case True
      then have "dec j = [digit_char j]" by (subst dec.simps) simp
      with di "1.prems" dec_not_Nil [of "i div 10"] show ?thesis by simp
    next
      case jf: False
      then have "dec j = dec (j div 10) @ [digit_char (j mod 10)]" by (subst dec.simps) simp
      with di "1.prems" have e: "dec (i div 10) = dec (j div 10)"
        and d: "digit_char (i mod 10) = digit_char (j mod 10)" by simp_all
      from "1.IH" [OF False e] have q: "i div 10 = j div 10" .
      have "i mod 10 < 10" "j mod 10 < 10" by simp_all
      from digit_char_inj [OF this d] have r: "i mod 10 = j mod 10" .
      from q r show ?thesis by (metis div_mult_mod_eq)
    qed
  qed
qed

lemma takeWhile_upto: "c \<notin> set zs \<Longrightarrow> takeWhile (\<lambda>x. x \<noteq> c) (zs @ c # ws) = zs"
  by (induction zs) auto

lemma suffix_after_last:
  assumes "xs @ c # ys = xs' @ c # ys'" and "c \<notin> set ys" and "c \<notin> set ys'"
  shows "ys = ys'"
proof -
  have "takeWhile (\<lambda>x. x \<noteq> c) (rev (xs @ c # ys)) = rev ys"
    using assms(2) by (simp add: takeWhile_upto)
  moreover have "takeWhile (\<lambda>x. x \<noteq> c) (rev (xs' @ c # ys')) = rev ys'"
    using assms(3) by (simp add: takeWhile_upto)
  ultimately have "rev ys = rev ys'" using assms(1) by simp
  then show ?thesis by simp
qed

lemma counter_suffix_inj: "p @ ''_'' @ dec i = q @ ''_'' @ dec j \<Longrightarrow> i = j"
proof -
  assume "p @ ''_'' @ dec i = q @ ''_'' @ dec j"
  then have "p @ CHR ''_'' # dec i = q @ CHR ''_'' # dec j" by simp
  from suffix_after_last [OF this dec_no_underscore dec_no_underscore]
  show ?thesis by (rule dec_inj)
qed

subsection \<open>Accumulated content\<close>

lemma running_append:
  "running a (xs @ ys) = running a xs @ running (a @ concat xs) ys"
  by (induction xs arbitrary: a) simp_all

lemma length_running [simp]: "length (running a ds) = length ds"
  by (induction ds arbitrary: a) simp_all

lemma running_nth:
  "n < length ds \<Longrightarrow> running a ds ! n = a @ concat (take (Suc n) ds)"
proof (induction ds arbitrary: a n)
  case Nil
  then show ?case by simp
next
  case (Cons d ds)
  show ?case
  proof (cases n)
    case 0
    then show ?thesis by simp
  next
    case (Suc m)
    with Cons.prems have "m < length ds" by simp
    from Cons.IH [OF this, of "a @ d"] Suc show ?thesis by simp
  qed
qed

lemma accumulates_silent: "filter is_content ys = [] \<Longrightarrow> accumulates a ys a"
  by (simp add: accumulates_def)

lemma accumulates_append:
  "accumulates a ys b \<Longrightarrow> accumulates b zs c \<Longrightarrow> accumulates a (ys @ zs) c"
  by (simp add: accumulates_def running_append)

lemma for_each_accumulates:
  assumes "\<And>s x. accumulates (acc s) (fst (body s x)) (acc (snd (body s x)))"
  shows "accumulates (acc s) (fst (for_each body s xs)) (acc (snd (for_each body s xs)))"
proof (induction xs arbitrary: s)
  case Nil
  show ?case by (simp add: accumulates_silent)
next
  case (Cons x xs)
  obtain ys s' where b: "body s x = (ys, s')" by (cases "body s x")
  obtain zs s'' where r: "for_each body s' xs = (zs, s'')" by (cases "for_each body s' xs")
  from assms [of s x] b have 1: "accumulates (acc s) ys (acc s')" by simp
  from Cons.IH [of s'] r have 2: "accumulates (acc s') zs (acc s'')" by simp
  from accumulates_append [OF 1 2] b r show ?case by simp
qed

lemma oa_tool_call_step_acc:
  "accumulates (oa_accumulatedContent s) (fst (oa_tool_call_step now c ts s t))
     (oa_accumulatedContent (snd (oa_tool_call_step now c ts s t)))"
  by (simp add: oa_tool_call_step_def accumulates_def Let_def split: prod.splits)

lemma oa_chunk_step_acc:
  "accumulates (oa_accumulatedContent s) (fst (oa_chunk_step now ts s c))
     (oa_accumulatedContent (snd (oa_chunk_step now ts s c)))"
proof -
  obtain ys1 s1 where 1: "oa_content_step ts s c = (ys1, s1)" by (cases "oa_content_step ts s c")
  obtain ys2 s2 where 2: "oa_tools_step now ts s1 c = (ys2, s2)"
    by (cases "oa_tools_step now ts s1 c")
  have a1: "accumulates (oa_accumulatedContent s) ys1 (oa_accumulatedContent s1)"
    using 1 by (auto simp: oa_content_step_def accumulates_def Let_def split: if_splits)
  have a2: "accumulates (oa_accumulatedContent s1) ys2 (oa_accumulatedContent s2)"
  proof (cases "case delta0 c of None \<Rightarrow> None | Some d \<Rightarrow> d_tool_calls d")
    case None
    with 2 show ?thesis by (simp add: oa_tools_step_def accumulates_silent)
  next
    case (Some tcs)
    from for_each_accumulates [of oa_accumulatedContent "oa_tool_call_step now c ts" s1 tcs,
        OF oa_tool_call_step_acc]
    show ?thesis using 2 Some by (simp add: oa_tools_step_def)
  qed
  have a3: "accumulates (oa_accumulatedContent s2) (oa_done_step ts c) (oa_accumulatedContent s2)"
    by (simp add: oa_done_step_def accumulates_def)
  from accumulates_append [OF a1 accumulates_append [OF a2 a3]] 1 2
  show ?thesis by (simp add: oa_chunk_step_def)
qed


lemma function_call_step_acc:
  "accumulates (accumulatedContent s) (fst (function_call_step E mdl ts s fc))
     (accumulatedContent (snd (function_call_step E mdl ts s fc)))"
  by (simp add: function_call_step_def tool_call_id_def accumulates_def Let_def
        split: prod.splits)

lemma text_step_acc:
  "accumulates (accumulatedContent s) (fst (text_step E mdl ts s p))
     (accumulatedContent (snd (text_step E mdl ts s p)))"
  by (simp add: text_step_def accumulates_def Let_def)

lemma part_step_acc:
  "accumulates (accumulatedContent s) (fst (part_step E mdl ts s p))
     (accumulatedContent (snd (part_step E mdl ts s p)))"
proof -
  obtain ys1 s1 where 1: "text_step E mdl ts s p = (ys1, s1)" by (cases "text_step E mdl ts s p")
  from text_step_acc [of s E mdl ts p] 1
  have a1: "accumulates (accumulatedContent s) ys1 (accumulatedContent s1)" by simp
  show ?thesis
  proof (cases "p_functionCall p")
    case None
    with 1 a1 show ?thesis by (simp add: part_step_def)
  next
    case (Some fc)
    obtain ys2 s2 where 2: "function_call_step E mdl ts s1 fc = (ys2, s2)"
      by (cases "function_call_step E mdl ts s1 fc")
    from function_call_step_acc [of s1 E mdl ts fc] 2
    have a2: "accumulates (accumulatedContent s1) ys2 (accumulatedContent s2)" by simp
    from accumulates_append [OF a1 a2] 1 2 Some show ?thesis by (simp add: part_step_def)
  qed
qed

lemma data_step_acc:
  "accumulates (accumulatedContent s) (fst (data_step E mdl ts s c))
     (accumulatedContent (snd (data_step E mdl ts s c)))"
  by (simp add: data_step_def accumulates_def Let_def)

lemma unexpected_part_step_acc:
  "accumulates (accumulatedContent s) (fst (unexpected_part_step E mdl ts s p))
     (accumulatedContent (snd (unexpected_part_step E mdl ts s p)))"
  by (simp add: unexpected_part_step_def tool_call_id_def accumulates_def Let_def
        split: option.splits prod.splits)

lemma finish_step_acc:
  "accumulates (accumulatedContent s) (fst (finish_step E mdl ts s c))
     (accumulatedContent (snd (finish_step E mdl ts s c)))"
proof (cases "finishReason0 c")
  case None
  then show ?thesis by (simp add: finish_step_def accumulates_silent)
next
  case (Some fr)
  define r1 where "r1 = (if fr = UNEXPECTED_TOOL_CALL
                 then (case parts0 c of
                         None \<Rightarrow> ([], s)
                       | Some ps \<Rightarrow> for_each (unexpected_part_step E mdl ts) s ps)
                 else ([], s))"
  obtain ys1 s1 where 1: "r1 = (ys1, s1)" by (cases r1)
  have a1: "accumulates (accumulatedContent s) ys1 (accumulatedContent s1)"
  proof (cases "fr = UNEXPECTED_TOOL_CALL \<and> parts0 c \<noteq> None")
    case True
    then obtain ps where ps: "parts0 c = Some ps" by auto
    from for_each_accumulates [of accumulatedContent "unexpected_part_step E mdl ts" s ps,
        OF unexpected_part_step_acc]
    show ?thesis using True ps 1 by (simp add: r1_def)
  next
    case False
    with 1 have "ys1 = [] \<and> s1 = s" by (auto simp: r1_def split: if_splits)
    then show ?thesis by (simp add: accumulates_silent)
  qed
  define r2 where "r2 = (if fr = MAX_TOKENS
                      then ([Error (generateId E (ids s1)) mdl ts
                               \<lparr> message = max_tokens_message, code = None \<rparr>],
                            s1\<lparr> ids := Suc (ids s1) \<rparr>)
                      else ([], s1))"
  obtain ys2 s2 where 2: "r2 = (ys2, s2)" by (cases r2)
  have a2: "accumulates (accumulatedContent s1)
              (ys2 @ [Done (generateId E (ids s2)) mdl ts
                        (if toolCallMap s2 \<noteq> [] then ''tool_calls'' else ''stop'')
                        (map_option g_usage_of (g_usageMetadata c))])
              (accumulatedContent (s2\<lparr> ids := Suc (ids s2) \<rparr>))"
    using 2 by (auto simp: r2_def accumulates_def split: if_splits)
  from accumulates_append [OF a1 a2] Some 1 2
  show ?thesis by (simp add: finish_step_def r1_def [symmetric] r2_def [symmetric])
qed


lemma g_chunk_step_acc:
  "accumulates (accumulatedContent s) (fst (g_chunk_step E mdl ts s c))
     (accumulatedContent (snd (g_chunk_step E mdl ts s c)))"
proof -
  define r1 where "r1 = (case parts0 c of
              Some ps \<Rightarrow> for_each (part_step E mdl ts) s ps
            | None \<Rightarrow> data_step E mdl ts s c)"
  obtain ys1 s1 where 1: "r1 = (ys1, s1)" by (cases r1)
  obtain ys2 s2 where 2: "finish_step E mdl ts s1 c = (ys2, s2)"
    by (cases "finish_step E mdl ts s1 c")
  have a1: "accumulates (accumulatedContent s) ys1 (accumulatedContent s1)"
  proof (cases "parts0 c")
    case None
    with data_step_acc [of s E mdl ts c] 1 show ?thesis by (simp add: r1_def)
  next
    case (Some ps)
    from for_each_accumulates [of accumulatedContent "part_step E mdl ts" s ps, OF part_step_acc]
    show ?thesis using Some 1 by (simp add: r1_def)
  qed
  from finish_step_acc [of s1 E mdl ts c] 2
  have a2: "accumulates (accumulatedContent s1) ys2 (accumulatedContent s2)" by simp
  from accumulates_append [OF a1 a2] 1 2
  show ?thesis by (simp add: g_chunk_step_def r1_def [symmetric])
qed

lemma accumulates_from_empty:
  assumes "accumulates [] ys a"
  shows "\<forall>n < length (content_chunks ys).
           content (content_chunks ys ! n) = concat (map delta (take (Suc n) (content_chunks ys)))"
proof (intro allI impI)
  fix n assume n: "n < length (content_chunks ys)"
  from assms have "map content (content_chunks ys) = running [] (map delta (content_chunks ys))"
    by (simp add: accumulates_def content_chunks_def)
  then have "map content (content_chunks ys) ! n = running [] (map delta (content_chunks ys)) ! n"
    by simp
  with n show "content (content_chunks ys ! n)
                 = concat (map delta (take (Suc n) (content_chunks ys)))"
    by (simp add: running_nth take_map)
qed

lemma accumulates_last:
  assumes "accumulates [] ys a" and "content_chunks ys \<noteq> []"
  shows "content (last (content_chunks ys)) = concat (map delta (content_chunks ys))"
proof -
  let ?cc = "content_chunks ys"
  from assms(2) have n: "length ?cc - 1 < length ?cc" by simp
  from accumulates_from_empty [OF assms(1)] n
  have "content (?cc ! (length ?cc - 1)) = concat (map delta (take (Suc (length ?cc - 1)) ?cc))"
    by blast
  with assms(2) show ?thesis by (simp add: last_conv_nth)
qed

lemma accumulates_error_last:
  "accumulates a ys b \<Longrightarrow> accumulates a (ys @ [Error i m t e]) b"
  by (simp add: accumulates_def)

lemma openai_chatStream_acc:
  "\<exists>a. accumulates [] (fst (openai_chatStream now gen_id omodel r)) a"
proof (cases r)
  case (Inl e)
  then show ?thesis by (auto simp: openai_chatStream_def accumulates_def)
next
  case (Inr vs)
  obtain cs failure where vs: "vs = (cs, failure)" by (cases vs)
  from for_each_accumulates [of oa_accumulatedContent "oa_chunk_step now (now 0)" oa_initial cs,
      OF oa_chunk_step_acc]
  have a: "accumulates [] (fst (for_each (oa_chunk_step now (now 0)) oa_initial cs))
             (oa_accumulatedContent (snd (for_each (oa_chunk_step now (now 0)) oa_initial cs)))"
    by (simp add: oa_initial_def)
  show ?thesis
  proof (cases failure)
    case None
    with a Inr vs show ?thesis by (auto simp: openai_chatStream_def Let_def)
  next
    case (Some e)
    have "fst (openai_chatStream now gen_id omodel r)
            = fst (for_each (oa_chunk_step now (now 0)) oa_initial cs)
              @ [Error gen_id (or_str omodel ''gpt-3.5-turbo'') (now 0)
                   \<lparr> message = or_str (err_message e) ''Unknown error occurred'',
                     code = err_code e \<rparr>]"
      using Some Inr vs by (simp add: openai_chatStream_def Let_def oa_error_chunk_def)
    with accumulates_error_last [OF a] show ?thesis by metis
  qed
qed

lemma processStreamChunks_acc:
  "accumulates [] (fst (fst (processStreamChunks E mdl vs)))
     (accumulatedContent (snd (processStreamChunks E mdl vs)))"
proof -
  obtain ys s where r: "for_each (g_chunk_step E mdl (Date_now E 0)) g_initial (fst vs) = (ys, s)"
    by (cases "for_each (g_chunk_step E mdl (Date_now E 0)) g_initial (fst vs)")
  from for_each_accumulates [of accumulatedContent "g_chunk_step E mdl (Date_now E 0)"
      g_initial "fst vs", OF g_chunk_step_acc] r
  show ?thesis by (simp add: processStreamChunks_def g_initial_def)
qed

lemma gemini_chatStream_acc:
  "\<exists>a. accumulates [] (fst (gemini_chatStream E mdl r)) a"
proof (cases r)
  case (Inl e)
  then show ?thesis by (auto simp: gemini_chatStream_def accumulates_def)
next
  case (Inr vs)
  obtain ys failure s where p: "processStreamChunks E mdl vs = ((ys, failure), s)"
    by (cases "processStreamChunks E mdl vs") auto
  from processStreamChunks_acc [of E mdl vs] p
  have a: "accumulates [] ys (accumulatedContent s)" by simp
  show ?thesis
  proof (cases failure)
    case None
    with a Inr p show ?thesis by (auto simp: gemini_chatStream_def)
  next
    case (Some e)
    have "fst (gemini_chatStream E mdl r)
            = ys @ [Error (generateId E (ids s)) mdl (Date_now E (clock s))
                      \<lparr> message = g_error_message e, code = None \<rparr>]"
      using Some Inr p by (simp add: gemini_chatStream_def)
    with accumulates_error_last [OF a] show ?thesis by metis
  qed
qed

text \<open>
  Claim C1.  In the sequence emitted by \<open>chatStream\<close> of the OpenAI adapter and of the
  Gemini adapter, the \<open>content\<close> field of every content chunk is the concatenation, in
  emission order, of the \<open>delta\<close> fields of that chunk and of all earlier content chunks;
  for the last content chunk this is the concatenation of all deltas.
\<close>

theorem C1_accumulated_content:
  "(\<forall>n < length (content_chunks (fst (openai_chatStream now gen_id omodel r))).
      content (content_chunks (fst (openai_chatStream now gen_id omodel r)) ! n)
        = concat (map delta
            (take (Suc n) (content_chunks (fst (openai_chatStream now gen_id omodel r))))))
   \<and> (\<forall>n < length (content_chunks (fst (gemini_chatStream E mdl g))).
      content (content_chunks (fst (gemini_chatStream E mdl g)) ! n)
        = concat (map delta
            (take (Suc n) (content_chunks (fst (gemini_chatStream E mdl g))))))
   \<and> (content_chunks (fst (openai_chatStream now gen_id omodel r)) \<noteq> [] \<longrightarrow>
        content (last (content_chunks (fst (openai_chatStream now gen_id omodel r))))
          = concat (map delta (content_chunks (fst (openai_chatStream now gen_id omodel r)))))
   \<and> (content_chunks (fst (gemini_chatStream E mdl g)) \<noteq> [] \<longrightarrow>
        content (last (content_chunks (fst (gemini_chatStream E mdl g))))
          = concat (map delta (content_chunks (fst (gemini_chatStream E mdl g)))))"
proof -
  from openai_chatStream_acc obtain a
    where a: "accumulates [] (fst (openai_chatStream now gen_id omodel r)) a" by blast
  from gemini_chatStream_acc obtain b
    where b: "accumulates [] (fst (gemini_chatStream E mdl g)) b" by blast
  from accumulates_from_empty [OF a] accumulates_from_empty [OF b]
    accumulates_last [OF a] accumulates_last [OF b]
  show ?thesis by blast
qed

theorem C1_witness:
  "content (content_chunks (fst (openai_chatStream (\<lambda>k. 1700 + k) ''err-1'' None
       (Inr ([ex_oa_text ''Hel'', ex_oa_text ''lo'', ex_oa_finish ''stop''], None)))) ! 1)
     = ''Hello''
   \<and> content (content_chunks (fst (gemini_chatStream ex_env ''gemini-pro''
       (Inr ([ex_g_parts [ex_text_part ''Hel'', ex_text_part ''lo''] (Some STOP)], None)))) ! 1)
     = ''Hello''"
proof -
  let ?o = "content_chunks (fst (openai_chatStream (\<lambda>k. 1700 + k) ''err-1'' None
       (Inr ([ex_oa_text ''Hel'', ex_oa_text ''lo'', ex_oa_finish ''stop''], None))))"
  let ?g = "content_chunks (fst (gemini_chatStream ex_env ''gemini-pro''
       (Inr ([ex_g_parts [ex_text_part ''Hel'', ex_text_part ''lo''] (Some STOP)], None))))"
  have o: "map delta ?o = [''Hel'', ''lo'']"
    by (simp add: content_chunks_def openai_chatStream_def oa_initial_def oa_chunk_step_def
          oa_content_step_def oa_tools_step_def oa_done_step_def ex_oa_text_def ex_oa_finish_def
          delta_content_def delta0_def choice0_def finish_reason0_def truthy_def Let_def)
  have g: "map delta ?g = [''Hel'', ''lo'']"
    by (simp add: content_chunks_def gemini_chatStream_def processStreamChunks_def g_initial_def
          g_chunk_step_def part_step_def text_step_def finish_step_def ex_g_parts_def
          ex_text_part_def parts0_def finishReason0_def truthy_def Let_def ex_env_def)
  from o have lo: "1 < length ?o" by (metis length_map length_Cons list.size(3) One_nat_def lessI)
  from g have lg: "1 < length ?g" by (metis length_map length_Cons list.size(3) One_nat_def lessI)
  from C1_accumulated_content [of "\<lambda>k. 1700 + k" "''err-1''" None
      "Inr ([ex_oa_text ''Hel'', ex_oa_text ''lo'', ex_oa_finish ''stop''], None)"
      ex_env "''gemini-pro''"
      "Inr ([ex_g_parts [ex_text_part ''Hel'', ex_text_part ''lo''] (Some STOP)], None)"] lo lg
  have "content (?o ! 1) = concat (map delta (take (Suc 1) ?o))"
    and "content (?g ! 1) = concat (map delta (take (Suc 1) ?g))"
    by blast+
  then have "content (?o ! 1) = concat (take 2 (map delta ?o))"
    and "content (?g ! 1) = concat (take 2 (map delta ?g))"
    by (simp_all add: take_map numeral_2_eq_2)
  with o g show ?thesis by simp
qed

subsection \<open>Terminal chunks\<close>

lemma for_each_all:
  assumes "\<And>s x. x \<in> set xs \<Longrightarrow> \<forall>y \<in> set (fst (body s x)). Q y"
  shows "\<forall>y \<in> set (fst (for_each body s xs)). Q y"
  by (rule for_each_rel [where R = "\<lambda>s ys s'. \<forall>y \<in> set ys. Q y"]) (auto dest: assms)

lemma terminated_once_snoc:
  "\<forall>y \<in> set ys. \<not> is_terminal y \<Longrightarrow> is_terminal t \<Longrightarrow> terminated_once (ys @ [t])"
  by (simp add: terminated_once_def filter_empty_conv)

lemma oa_tool_call_step_quiet:
  "\<forall>y \<in> set (fst (oa_tool_call_step now c ts s t)). \<not> is_terminal y"
  by (simp add: oa_tool_call_step_def is_terminal_def Let_def split: prod.splits)

lemma oa_tools_step_quiet: "\<forall>y \<in> set (fst (oa_tools_step now ts s c)). \<not> is_terminal y"
proof (cases "case delta0 c of None \<Rightarrow> None | Some d \<Rightarrow> d_tool_calls d")
  case None
  then show ?thesis by (simp add: oa_tools_step_def)
next
  case (Some tcs)
  have "\<forall>y \<in> set (fst (for_each (oa_tool_call_step now c ts) s tcs)). \<not> is_terminal y"
    by (rule for_each_all) (rule oa_tool_call_step_quiet)
  with Some show ?thesis by (simp add: oa_tools_step_def)
qed

lemma oa_content_step_quiet: "\<forall>y \<in> set (fst (oa_content_step ts s c)). \<not> is_terminal y"
  by (simp add: oa_content_step_def is_terminal_def Let_def)

lemma oa_chunk_step_out:
  "fst (oa_chunk_step now ts s c)
     = fst (oa_content_step ts s c)
       @ fst (oa_tools_step now ts (snd (oa_content_step ts s c)) c) @ oa_done_step ts c"
  by (simp add: oa_chunk_step_def split: prod.splits)

lemma oa_chunk_step_quiet:
  "\<not> truthy (finish_reason0 c) \<Longrightarrow> \<forall>y \<in> set (fst (oa_chunk_step now ts s c)). \<not> is_terminal y"
  using oa_content_step_quiet [of ts s c]
    oa_tools_step_quiet [of now ts "snd (oa_content_step ts s c)" c]
  by (auto simp: oa_chunk_step_out oa_done_step_def)

lemma oa_chunk_step_finish:
  assumes "truthy (finish_reason0 c)"
  shows "\<exists>ys t. fst (oa_chunk_step now ts s c) = ys @ [t]
            \<and> (\<forall>y \<in> set ys. \<not> is_terminal y) \<and> is_done t"
proof -
  let ?ys = "fst (oa_content_step ts s c)
       @ fst (oa_tools_step now ts (snd (oa_content_step ts s c)) c)"
  let ?t = "Done (oc_id c) (oc_model c) ts (the (finish_reason0 c))
              (map_option oa_usage_of (oc_usage c))"
  have "fst (oa_chunk_step now ts s c) = ?ys @ [?t]"
    using assms by (simp add: oa_chunk_step_out oa_done_step_def)
  moreover have "\<forall>y \<in> set ?ys. \<not> is_terminal y"
    using oa_content_step_quiet [of ts s c]
      oa_tools_step_quiet [of now ts "snd (oa_content_step ts s c)" c]
    by auto
  ultimately show ?thesis by (intro exI [of _ ?ys] exI [of _ ?t]) simp
qed

lemma for_each_snoc_out:
  "fst (for_each body s (xs @ [x]))
     = fst (for_each body s xs) @ fst (body (snd (for_each body s xs)) x)"
  by (simp add: for_each_append split: prod.splits)

lemma openai_terminated_once:
  assumes "oa_finishes_once vs"
  shows "terminated_once (fst (openai_chatStream now gen_id omodel (Inr vs)))"
proof -
  obtain cs failure where vs: "vs = (cs, failure)" by (cases vs)
  let ?run = "\<lambda>xs. for_each (oa_chunk_step now (now 0)) oa_initial xs"
  show ?thesis
  proof (cases failure)
    case None
    with assms vs have ne: "cs \<noteq> []" and fin: "truthy (finish_reason0 (last cs))"
      and quiet: "\<forall>c \<in> set (butlast cs). \<not> truthy (finish_reason0 c)"
      by (simp_all add: oa_finishes_once_def list_all_iff)
    have pre: "\<forall>y \<in> set (fst (?run (butlast cs))). \<not> is_terminal y"
      by (rule for_each_all) (use quiet oa_chunk_step_quiet in blast)
    from oa_chunk_step_finish [OF fin, of now "now 0" "snd (?run (butlast cs))"]
    obtain ys t where l: "fst (oa_chunk_step now (now 0) (snd (?run (butlast cs))) (last cs))
                            = ys @ [t]"
      and ysq: "\<forall>y \<in> set ys. \<not> is_terminal y" and t: "is_done t" by blast
    from ne have "cs = butlast cs @ [last cs]" by simp
    then have "fst (?run cs) = fst (?run (butlast cs))
                 @ fst (oa_chunk_step now (now 0) (snd (?run (butlast cs))) (last cs))"
      using for_each_snoc_out [of "oa_chunk_step now (now 0)" oa_initial "butlast cs" "last cs"]
      by simp
    with l have out: "fst (?run cs) = (fst (?run (butlast cs)) @ ys) @ [t]" by simp
    have "terminated_once ((fst (?run (butlast cs)) @ ys) @ [t])"
      by (rule terminated_once_snoc) (use pre ysq t in \<open>auto simp: is_terminal_def\<close>)
    with out None vs show ?thesis by (simp add: openai_chatStream_def Let_def)
  next
    case (Some e)
    with assms vs have quiet: "\<forall>c \<in> set cs. \<not> truthy (finish_reason0 c)"
      by (simp add: oa_finishes_once_def list_all_iff)
    have pre: "\<forall>y \<in> set (fst (?run cs)). \<not> is_terminal y"
      by (rule for_each_all) (use quiet oa_chunk_step_quiet in blast)
    have "terminated_once (fst (?run cs) @ [oa_error_chunk gen_id omodel (now 0) e])"
      by (rule terminated_once_snoc) (use pre in \<open>auto simp: is_terminal_def oa_error_chunk_def\<close>)
    with Some vs show ?thesis by (simp add: openai_chatStream_def Let_def)
  qed
qed


lemma text_step_quiet: "\<forall>y \<in> set (fst (text_step E mdl ts s p)). \<not> is_terminal y"
  by (simp add: text_step_def is_terminal_def Let_def)

lemma function_call_step_quiet:
  "\<forall>y \<in> set (fst (function_call_step E mdl ts s fc)). \<not> is_terminal y"
  by (simp add: function_call_step_def is_terminal_def Let_def split: prod.splits)

lemma part_step_quiet: "\<forall>y \<in> set (fst (part_step E mdl ts s p)). \<not> is_terminal y"
proof -
  have "fst (part_step E mdl ts s p)
          = fst (text_step E mdl ts s p)
            @ (case p_functionCall p of
                 None \<Rightarrow> []
               | Some fc \<Rightarrow> fst (function_call_step E mdl ts (snd (text_step E mdl ts s p)) fc))"
    by (auto simp: part_step_def split: prod.splits option.splits)
  with text_step_quiet [of E mdl ts s p]
    function_call_step_quiet [of E mdl ts "snd (text_step E mdl ts s p)"]
  show ?thesis by (auto split: option.splits)
qed

lemma data_step_quiet: "\<forall>y \<in> set (fst (data_step E mdl ts s c)). \<not> is_terminal y"
  by (simp add: data_step_def is_terminal_def Let_def)

lemma unexpected_part_step_quiet:
  "\<forall>y \<in> set (fst (unexpected_part_step E mdl ts s p)). \<not> is_terminal y"
  by (simp add: unexpected_part_step_def is_terminal_def Let_def split: prod.splits option.splits)

lemma content_of_chunk_quiet:
  "\<forall>y \<in> set (fst (case parts0 c of
                      Some ps \<Rightarrow> for_each (part_step E mdl ts) s ps
                    | None \<Rightarrow> data_step E mdl ts s c)). \<not> is_terminal y"
proof (cases "parts0 c")
  case None
  with data_step_quiet [of E mdl ts s c] show ?thesis by simp
next
  case (Some ps)
  have "\<forall>y \<in> set (fst (for_each (part_step E mdl ts) s ps)). \<not> is_terminal y"
    by (rule for_each_all) (rule part_step_quiet)
  with Some show ?thesis by simp
qed

lemma g_chunk_step_out:
  "fst (g_chunk_step E mdl ts s c)
     = fst (case parts0 c of
              Some ps \<Rightarrow> for_each (part_step E mdl ts) s ps
            | None \<Rightarrow> data_step E mdl ts s c)
       @ fst (finish_step E mdl ts
                (snd (case parts0 c of
                        Some ps \<Rightarrow> for_each (part_step E mdl ts) s ps
                      | None \<Rightarrow> data_step E mdl ts s c)) c)"
  by (simp add: g_chunk_step_def split: prod.splits)

lemma g_chunk_step_quiet:
  "finishReason0 c = None \<Longrightarrow> \<forall>y \<in> set (fst (g_chunk_step E mdl ts s c)). \<not> is_terminal y"
  using content_of_chunk_quiet [where c = c and E = E and mdl = mdl and ts = ts and s = s]
  by (simp add: g_chunk_step_out finish_step_def)

lemma finish_step_finish:
  assumes "finishReason0 c = Some fr" and "fr \<noteq> MAX_TOKENS"
  shows "\<exists>ys t. fst (finish_step E mdl ts s c) = ys @ [t]
            \<and> (\<forall>y \<in> set ys. \<not> is_terminal y) \<and> is_done t"
proof -
  define r1 where "r1 = (if fr = UNEXPECTED_TOOL_CALL
                 then (case parts0 c of
                         None \<Rightarrow> ([], s)
                       | Some ps \<Rightarrow> for_each (unexpected_part_step E mdl ts) s ps)
                 else ([], s))"
  have q: "\<forall>y \<in> set (fst r1). \<not> is_terminal y"
  proof (cases "fr = UNEXPECTED_TOOL_CALL \<and> parts0 c \<noteq> None")
    case True
    then obtain ps where ps: "parts0 c = Some ps" by auto
    have "\<forall>y \<in> set (fst (for_each (unexpected_part_step E mdl ts) s ps)). \<not> is_terminal y"
      by (rule for_each_all) (rule unexpected_part_step_quiet)
    with True ps show ?thesis by (simp add: r1_def)
  next
    case False
    then have "fst r1 = []" by (auto simp: r1_def)
    then show ?thesis by simp
  qed
  let ?t = "Done (generateId E (ids (snd r1))) mdl ts
              (if toolCallMap (snd r1) \<noteq> [] then ''tool_calls'' else ''stop'')
              (map_option g_usage_of (g_usageMetadata c))"
  have "fst (finish_step E mdl ts s c) = fst r1 @ [?t]"
    using assms by (simp add: finish_step_def r1_def [symmetric] split: prod.splits)
  with q show ?thesis by (intro exI [of _ "fst r1"] exI [of _ ?t]) simp
qed

lemma g_chunk_step_finish:
  assumes "finishReason0 c = Some fr" and "fr \<noteq> MAX_TOKENS"
  shows "\<exists>ys t. fst (g_chunk_step E mdl ts s c) = ys @ [t]
            \<and> (\<forall>y \<in> set ys. \<not> is_terminal y) \<and> is_done t"
proof -
  define r where "r = (case parts0 c of
              Some ps \<Rightarrow> for_each (part_step E mdl ts) s ps
            | None \<Rightarrow> data_step E mdl ts s c)"
  from finish_step_finish [OF assms, of E mdl ts "snd r"]
  obtain ys t where f: "fst (finish_step E mdl ts (snd r) c) = ys @ [t]"
    and q: "\<forall>y \<in> set ys. \<not> is_terminal y" and t: "is_done t" by blast
  have "fst (g_chunk_step E mdl ts s c) = (fst r @ ys) @ [t]"
    using f by (simp add: g_chunk_step_out r_def [symmetric])
  moreover have "\<forall>y \<in> set (fst r @ ys). \<not> is_terminal y"
    using content_of_chunk_quiet [where c = c and E = E and mdl = mdl and ts = ts and s = s] q by (auto simp: r_def)
  ultimately show ?thesis using t by blast
qed

lemma processStreamChunks_out:
  "fst (processStreamChunks E mdl vs)
     = (fst (for_each (g_chunk_step E mdl (Date_now E 0)) g_initial (fst vs)), snd vs)"
  by (simp add: processStreamChunks_def split: prod.splits)

lemma gemini_chatStream_out:
  "fst (gemini_chatStream E mdl (Inr vs))
     = fst (for_each (g_chunk_step E mdl (Date_now E 0)) g_initial (fst vs))
       @ (case snd vs of
            None \<Rightarrow> []
          | Some e \<Rightarrow>
              [Error (generateId E (ids (snd (processStreamChunks E mdl vs)))) mdl
                 (Date_now E (clock (snd (processStreamChunks E mdl vs))))
                 \<lparr> message = g_error_message e, code = None \<rparr>])"
proof -
  obtain ys f s where p: "processStreamChunks E mdl vs = ((ys, f), s)"
    by (cases "processStreamChunks E mdl vs") auto
  with processStreamChunks_out [of E mdl vs]
  have "ys = fst (for_each (g_chunk_step E mdl (Date_now E 0)) g_initial (fst vs))"
    and "f = snd vs" by simp_all
  with p show ?thesis by (simp add: gemini_chatStream_def split: option.splits)
qed

lemma gemini_terminated_once:
  assumes "g_finishes_once vs"
  shows "terminated_once (fst (gemini_chatStream E mdl (Inr vs)))"
proof -
  obtain cs failure where vs: "vs = (cs, failure)" by (cases vs)
  let ?run = "\<lambda>xs. for_each (g_chunk_step E mdl (Date_now E 0)) g_initial xs"
  show ?thesis
  proof (cases failure)
    case None
    with assms vs have ne: "cs \<noteq> []"
      and quiet: "\<forall>c \<in> set (butlast cs). finishReason0 c = None"
      by (simp_all add: g_finishes_once_def list_all_iff)
    from assms vs None obtain fr where fin: "finishReason0 (last cs) = Some fr"
      and fr: "fr \<noteq> MAX_TOKENS"
      by (auto simp: g_finishes_once_def)
    have pre: "\<forall>y \<in> set (fst (?run (butlast cs))). \<not> is_terminal y"
      by (rule for_each_all) (use quiet g_chunk_step_quiet in blast)
    from g_chunk_step_finish [OF fin fr, of E mdl "Date_now E 0" "snd (?run (butlast cs))"]
    obtain ys t where l: "fst (g_chunk_step E mdl (Date_now E 0) (snd (?run (butlast cs)))
                                 (last cs)) = ys @ [t]"
      and ysq: "\<forall>y \<in> set ys. \<not> is_terminal y" and t: "is_done t" by blast
    from ne have "cs = butlast cs @ [last cs]" by simp
    then have "fst (?run cs) = fst (?run (butlast cs))
                 @ fst (g_chunk_step E mdl (Date_now E 0) (snd (?run (butlast cs))) (last cs))"
      using for_each_snoc_out [of "g_chunk_step E mdl (Date_now E 0)" g_initial
          "butlast cs" "last cs"]
      by simp
    with l have out: "fst (?run cs) = (fst (?run (butlast cs)) @ ys) @ [t]" by simp
    have "terminated_once ((fst (?run (butlast cs)) @ ys) @ [t])"
      by (rule terminated_once_snoc) (use pre ysq t in \<open>auto simp: is_terminal_def\<close>)
    with out None vs show ?thesis by (simp add: gemini_chatStream_out)
  next
    case (Some e)
    with assms vs have quiet: "\<forall>c \<in> set cs. finishReason0 c = None"
      by (simp add: g_finishes_once_def list_all_iff)
    have pre: "\<forall>y \<in> set (fst (?run cs)). \<not> is_terminal y"
      by (rule for_each_all) (use quiet g_chunk_step_quiet in blast)
    have "terminated_once (fst (?run cs)
            @ [Error (generateId E (ids (snd (processStreamChunks E mdl vs)))) mdl
                 (Date_now E (clock (snd (processStreamChunks E mdl vs))))
                 \<lparr> message = g_error_message e, code = None \<rparr>])"
      by (rule terminated_once_snoc) (use pre in \<open>auto simp: is_terminal_def\<close>)
    with Some vs show ?thesis by (simp add: gemini_chatStream_out)
  qed
qed

lemma gemini_open_failure: "terminated_once (fst (gemini_chatStream E mdl (Inl e)))"
  by (simp add: gemini_chatStream_def terminated_once_def is_terminal_def)

text \<open>
  Claim C2, as stated, fails: a Gemini chunk whose finish reason is \<open>MAX_TOKENS\<close> makes the
  adapter emit an \<open>error\<close> chunk and then a \<open>done\<close> chunk, two terminal chunks, the first
  of them not last.
\<close>

theorem C2_counterexample:
  "map is_terminal (fst (gemini_chatStream ex_env ''gemini-pro''
      (Inr ([ex_g_parts [ex_text_part ''Hi''] (Some MAX_TOKENS)], None))))
     = [False, True, True]
   \<and> \<not> terminated_once (fst (gemini_chatStream ex_env ''gemini-pro''
      (Inr ([ex_g_parts [ex_text_part ''Hi''] (Some MAX_TOKENS)], None))))"
  by (simp add: gemini_chatStream_def processStreamChunks_def g_initial_def
        g_chunk_step_def part_step_def text_step_def finish_step_def ex_g_parts_def
        ex_text_part_def parts0_def finishReason0_def truthy_def Let_def ex_env_def
        terminated_once_def is_terminal_def)

text \<open>
  Claim C2, amended.  When the vendor stream finishes once (it ends normally and only its
  last chunk carries a finish reason, for Gemini not \<open>MAX_TOKENS\<close>; or it fails and no
  chunk carried a finish reason), \<open>chatStream\<close> of either adapter emits exactly one terminal
  chunk, as the last chunk of the sequence; so does the Gemini adapter when opening the
  vendor stream fails.
\<close>

theorem C2_single_terminal_chunk:
  "(oa_finishes_once ovs \<longrightarrow>
      terminated_once (fst (openai_chatStream now gen_id omodel (Inr ovs))))
   \<and> (g_finishes_once gvs \<longrightarrow> terminated_once (fst (gemini_chatStream E mdl (Inr gvs))))
   \<and> terminated_once (fst (gemini_chatStream E mdl (Inl e)))"
  using openai_terminated_once [of ovs now gen_id omodel]
    gemini_terminated_once [of gvs E mdl] gemini_open_failure [of E mdl e]
  by blast

theorem C2_witness:
  "map is_terminal (fst (openai_chatStream (\<lambda>k. 1700 + k) ''err-1'' None
      (Inr ([ex_oa_text ''Hi'', ex_oa_finish ''stop''], None)))) = [False, True]
   \<and> map is_terminal (fst (gemini_chatStream ex_env ''gemini-pro''
      (Inr ([ex_g_parts [ex_text_part ''Hi''] None],
            Some \<lparr> is_Error = True, err_message = Some ''socket hang up'', err_code = None \<rparr>))))
      = [False, True]
   \<and> terminated_once (fst (openai_chatStream (\<lambda>k. 1700 + k) ''err-1'' None
      (Inr ([ex_oa_text ''Hi'', ex_oa_finish ''stop''], None))))
   \<and> terminated_once (fst (gemini_chatStream ex_env ''gemini-pro''
      (Inr ([ex_g_parts [ex_text_part ''Hi''] None],
            Some \<lparr> is_Error = True, err_message = Some ''socket hang up'', err_code = None \<rparr>))))"
proof -
  have o: "oa_finishes_once ([ex_oa_text ''Hi'', ex_oa_finish ''stop''], None)"
    by (simp add: oa_finishes_once_def ex_oa_text_def ex_oa_finish_def finish_reason0_def
          choice0_def truthy_def)
  have g: "g_finishes_once ([ex_g_parts [ex_text_part ''Hi''] None],
            Some \<lparr> is_Error = True, err_message = Some ''socket hang up'', err_code = None \<rparr>)"
    by (simp add: g_finishes_once_def ex_g_parts_def finishReason0_def)
  have 1: "map is_terminal (fst (openai_chatStream (\<lambda>k. 1700 + k) ''err-1'' None
      (Inr ([ex_oa_text ''Hi'', ex_oa_finish ''stop''], None)))) = [False, True]"
    by (simp add: openai_chatStream_def oa_initial_def oa_chunk_step_def
          oa_content_step_def oa_tools_step_def oa_done_step_def ex_oa_text_def ex_oa_finish_def
          delta_content_def delta0_def choice0_def finish_reason0_def truthy_def Let_def
          is_terminal_def)
  have 2: "map is_terminal (fst (gemini_chatStream ex_env ''gemini-pro''
      (Inr ([ex_g_parts [ex_text_part ''Hi''] None],
            Some \<lparr> is_Error = True, err_message = Some ''socket hang up'', err_code = None \<rparr>))))
      = [False, True]"
    by (simp add: gemini_chatStream_def processStreamChunks_def g_initial_def
        g_chunk_step_def part_step_def text_step_def finish_step_def ex_g_parts_def
        ex_text_part_def parts0_def finishReason0_def truthy_def Let_def ex_env_def
        is_terminal_def)
  from C2_single_terminal_chunk [of "([ex_oa_text ''Hi'', ex_oa_finish ''stop''], None)"
      "\<lambda>k. 1700 + k" "''err-1''" None
      "([ex_g_parts [ex_text_part ''Hi''] None],
            Some \<lparr> is_Error = True, err_message = Some ''socket hang up'', err_code = None \<rparr>)"
      ex_env "''gemini-pro''"] o g 1 2
  show ?thesis by blast
qed

subsection \<open>Failures of the vendor call\<close>

lemma gemini_chatStream_no_throw: "snd (gemini_chatStream E mdl r) = None"
  by (cases r) (auto simp: gemini_chatStream_def split: prod.splits option.splits)

lemma openai_chatStream_iteration_caught:
  "snd (openai_chatStream now gen_id omodel (Inr vs)) = None"
  by (cases vs) (auto simp: openai_chatStream_def Let_def split: option.splits)

lemma gemini_chatStream_failure_is_error_chunk:
  "is_error (last (fst (gemini_chatStream E mdl (Inl e))))
   \<and> is_error (last (fst (gemini_chatStream E mdl (Inr (cs, Some e)))))"
  by (simp add: gemini_chatStream_out) (simp add: gemini_chatStream_def)

text \<open>
  Claim C3.  A failure of the vendor call never leaves \<open>chatStream\<close> of the Gemini adapter,
  and a failure while iterating never leaves \<open>chatStream\<close> of the OpenAI adapter.  A failure
  of \<open>create\<close> in the OpenAI adapter does: the call stands before the \<open>try\<close>, no chunk is
  emitted and the exception reaches the caller.
\<close>

theorem C3_openai_open_failure_propagates:
  "openai_chatStream now gen_id omodel (Inl e) = ([], Some e)
   \<and> snd (openai_chatStream now gen_id omodel (Inr vs)) = None
   \<and> snd (gemini_chatStream E mdl r) = None"
  using openai_chatStream_iteration_caught [of now gen_id omodel vs]
    gemini_chatStream_no_throw [of E mdl r]
  by (simp add: openai_chatStream_def)

subsection \<open>The map after a function call\<close>

lemma function_call_step_map:
  assumes "tool_call_id E s fc = (k, s1)"
  shows "toolCallMap (snd (function_call_step E mdl ts s fc))
           = AList.update k
               (case map_of (toolCallMap s) k of
                  None \<Rightarrow> \<lparr> tcd_name = or_str (fc_name fc) [],
                             tcd_args = args_text E (function_args fc),
                             tcd_index = nextToolIndex s \<rparr>
                | Some d \<Rightarrow> d\<lparr> tcd_args := merged_args E (tcd_args d) (function_args fc) \<rparr>)
               (toolCallMap s)"
proof -
  from assms have "toolCallMap s1 = toolCallMap s" and "nextToolIndex s1 = nextToolIndex s"
    by (auto simp: tool_call_id_def split: if_splits)
  with assms show ?thesis
    by (simp add: function_call_step_def Let_def cong: option.case_cong)
qed

lemma function_call_step_creates:
  assumes "tool_call_id E s fc = (k, s1)" and "map_of (toolCallMap s1) k = None"
  shows "map_of (toolCallMap (snd (function_call_step E mdl ts s fc))) k
           = Some \<lparr> tcd_name = or_str (fc_name fc) [],
                    tcd_args = args_text E (function_args fc),
                    tcd_index = nextToolIndex s \<rparr>"
proof -
  from assms(1) have "toolCallMap s1 = toolCallMap s"
    by (auto simp: tool_call_id_def split: if_splits)
  with assms(2) show ?thesis
    unfolding function_call_step_map [OF assms(1)] by (simp add: AList.update_conv')
qed

subsection \<open>Properties of an object\<close>

lemma digit_val_digit_char: "d < 10 \<Longrightarrow> digit_val (digit_char d) = d"
proof -
  assume "d < 10"
  then have "d = 0 \<or> d = 1 \<or> d = 2 \<or> d = 3 \<or> d = 4 \<or> d = 5 \<or> d = 6 \<or> d = 7 \<or> d = 8 \<or> d = 9"
    by arith
  then show ?thesis by (auto simp: digit_val_def digit_char_def)
qed

lemma decimal_value_snoc: "decimal_value (k @ [c]) = 10 * decimal_value k + digit_val c"
  by (simp add: decimal_value_def)

lemma decimal_value_dec: "decimal_value (dec n) = n"
proof (induction n rule: dec.induct)
  case (1 n)
  show ?case
  proof (cases "n < 10")
    case True
    then have "dec n = [digit_char n]" by (subst dec.simps) simp
    with True show ?thesis by (simp add: decimal_value_def digit_val_digit_char)
  next
    case False
    then have d: "dec n = dec (n div 10) @ [digit_char (n mod 10)]" by (subst dec.simps) simp
    have "n mod 10 < 10" by simp
    from digit_val_digit_char [OF this] 1 [OF False] show ?thesis
      unfolding d by (simp add: decimal_value_snoc)
  qed
qed

lemma array_index_dec: "n < 4294967295 \<Longrightarrow> array_index (dec n) = Some n"
  by (simp add: array_index_def decimal_value_dec)

lemma array_index_SomeD: "array_index k = Some n \<Longrightarrow> k = dec n"
  by (auto simp: array_index_def split: if_splits)

lemma array_index_examples:
  "array_index ''0'' = Some 0" "array_index ''12'' = Some 12" "array_index ''01'' = None"
  "array_index ''a'' = None" "array_index [] = None" "array_index ''-1'' = None"
  by (simp_all add: array_index_def decimal_value_def digit_val_def dec.simps digit_char_def)

lemma map_of_insert_index:
  "map_of ps k = None \<Longrightarrow> map_of (insert_index n k v ps) = (map_of ps)(k \<mapsto> v)"
proof (induction ps)
  case Nil
  show ?case by simp
next
  case (Cons p ps)
  from Cons.prems have ne: "fst p \<noteq> k" and rest: "map_of ps k = None"
    by (auto split: if_splits)
  from Cons.IH [OF rest] ne show ?case
    by (cases p) (auto simp: fun_eq_iff split: option.splits)
qed

lemma map_of_set_prop: "map_of (set_prop k v ps) = (map_of ps)(k \<mapsto> v)"
  by (simp add: set_prop_def map_of_insert_index AList.update_conv' split: option.splits)

lemma keys_insert_index: "fst ` set (insert_index n k v ps) = insert k (fst ` set ps)"
  by (induction ps) (auto split: option.splits)

lemma keys_set_prop: "fst ` set (set_prop k v ps) = insert k (fst ` set ps)"
  by (auto simp: set_prop_def keys_insert_index AList.dom_update split: option.splits)

lemma distinct_insert_index:
  "k \<notin> fst ` set ps \<Longrightarrow> distinct (map fst ps) \<Longrightarrow> distinct (map fst (insert_index n k v ps))"
proof (induction ps)
  case Nil
  show ?case by simp
next
  case (Cons p ps)
  then have IH: "distinct (map fst (insert_index n k v ps))" by simp
  from Cons.prems have "fst p \<noteq> k" "fst p \<notin> fst ` set ps" by auto
  with IH Cons.prems keys_insert_index [of n k v ps] show ?case
    by (auto split: option.splits)
qed

lemma distinct_set_prop:
  "distinct (map fst ps) \<Longrightarrow> distinct (map fst (set_prop k v ps))"
  by (auto simp: set_prop_def distinct_insert_index AList.distinct_update map_of_eq_None_iff
        split: option.splits)


lemma js_ordered_Cons:
  "js_ordered (k # ks)
     = ((case ks of
           [] \<Rightarrow> True
         | k' # _ \<Rightarrow> (case array_index k' of
                       Some n \<Rightarrow> (case array_index k of Some m \<Rightarrow> m < n | None \<Rightarrow> False)
                     | None \<Rightarrow> True))
        \<and> js_ordered ks)"
  by (cases ks) simp_all

lemma js_ordered_snoc:
  "js_ordered ks \<Longrightarrow> array_index k = None \<Longrightarrow> js_ordered (ks @ [k])"
proof (induction ks rule: js_ordered.induct)
  case 1
  show ?case by simp
next
  case (2 k0)
  then show ?case by simp
next
  case (3 k0 k1 ks)
  then show ?case by simp
qed

lemma insert_index_head:
  "insert_index n k v ps = (k, v) # ps
   \<or> (\<exists>p qs m. ps = p # qs \<and> array_index (fst p) = Some m \<and> m < n
         \<and> insert_index n k v ps = p # insert_index n k v qs)"
  by (cases ps) (auto split: option.splits)

lemma js_ordered_insert_index:
  assumes "array_index k = Some n"
  shows "js_ordered (map fst ps) \<Longrightarrow> k \<notin> fst ` set ps \<Longrightarrow>
           js_ordered (map fst (insert_index n k v ps))"
proof (induction ps)
  case Nil
  show ?case by simp
next
  case (Cons p ps)
  from Cons.prems have ne: "fst p \<noteq> k" and absent: "k \<notin> fst ` set ps"
    and ord: "js_ordered (map fst ps)"
    by (auto simp: js_ordered_Cons)
  show ?case
  proof (cases "array_index (fst p)")
    case None
    with Cons.prems(1) show ?thesis by simp
  next
    case (Some m)
    show ?thesis
    proof (cases "m < n")
      case False
      from array_index_SomeD [OF Some] array_index_SomeD [OF assms] ne have "m \<noteq> n" by auto
      with False have "n < m" by simp
      with Some assms False Cons.prems(1) show ?thesis by simp
    next
      case True
      note IH = Cons.IH [OF ord absent]
      from insert_index_head [of n k v ps]
      show ?thesis
      proof
        assume e: "insert_index n k v ps = (k, v) # ps"
        with IH have "js_ordered (k # map fst ps)" by simp
        with Some True assms e show ?thesis by simp
      next
        assume "\<exists>q qs m'. ps = q # qs \<and> array_index (fst q) = Some m' \<and> m' < n
                  \<and> insert_index n k v ps = q # insert_index n k v qs"
        then obtain q qs m' where ps: "ps = q # qs" and q: "array_index (fst q) = Some m'"
          and e: "insert_index n k v ps = q # insert_index n k v qs" by blast
        from Cons.prems(1) ps q Some have "m < m'" by simp
        with IH e Some True q show ?thesis by (simp add: js_ordered_Cons [of "fst p"])
      qed
    qed
  qed
qed

lemma js_ordered_set_prop:
  assumes "js_ordered (map fst ps)"
  shows "js_ordered (map fst (set_prop k v ps))"
proof (cases "k \<in> fst ` set ps")
  case True
  then have "map fst (AList.update k v ps) = map fst ps" by (simp add: AList.update_keys)
  moreover from True have "map_of ps k \<noteq> None" by (simp add: map_of_eq_None_iff)
  ultimately show ?thesis using assms by (auto simp: set_prop_def split: option.splits)
next
  case False
  then have none: "map_of ps k = None" by (simp add: map_of_eq_None_iff)
  show ?thesis
  proof (cases "array_index k")
    case None
    from False have "map fst (AList.update k v ps) = map fst ps @ [k]"
      by (simp add: AList.update_keys)
    with js_ordered_snoc [OF assms None] None show ?thesis by (simp add: set_prop_def)
  next
    case (Some n)
    from js_ordered_insert_index [OF Some assms False] Some none show ?thesis
      by (simp add: set_prop_def)
  qed
qed

lemma copy_props_Cons: "copy_props t ((k, v) # src) = copy_props (set_prop k v t) src"
  by (simp add: copy_props_def)

lemma copy_props_Nil: "copy_props t [] = t"
  by (simp add: copy_props_def)

lemma map_of_copy_props:
  "distinct (map fst src) \<Longrightarrow> map_of (copy_props t src) = map_of t ++ map_of src"
proof (induction src arbitrary: t)
  case Nil
  show ?case by (simp add: copy_props_Nil)
next
  case (Cons p src)
  obtain k v where p: "p = (k, v)" by (cases p)
  from Cons.prems p have d: "distinct (map fst src)" and k: "k \<notin> fst ` set src" by auto
  from k have nk: "map_of src k = None" by (simp add: map_of_eq_None_iff)
  have "map_of (copy_props t (p # src)) = map_of (set_prop k v t) ++ map_of src"
    using Cons.IH [OF d] p by (simp add: copy_props_Cons)
  also have "\<dots> = (map_of t)(k \<mapsto> v) ++ map_of src" by (simp add: map_of_set_prop)
  also have "\<dots> = map_of t ++ (map_of src)(k \<mapsto> v)"
    using nk by (auto simp: fun_eq_iff map_add_def split: option.splits)
  finally show ?case using p by (simp add: fun_eq_iff map_add_def)
qed

lemma keys_copy_props: "fst ` set (copy_props t src) = fst ` set t \<union> fst ` set src"
proof (induction src arbitrary: t)
  case Nil
  show ?case by (simp add: copy_props_Nil)
next
  case (Cons p src)
  obtain k v where p: "p = (k, v)" by (cases p)
  from Cons.IH [of "set_prop k v t"] p show ?case
    by (simp add: copy_props_Cons keys_set_prop)
qed

lemma distinct_copy_props:
  "distinct (map fst t) \<Longrightarrow> distinct (map fst (copy_props t src))"
proof (induction src arbitrary: t)
  case Nil
  then show ?case by (simp add: copy_props_Nil)
next
  case (Cons p src)
  obtain k v where p: "p = (k, v)" by (cases p)
  from Cons.IH [OF distinct_set_prop [OF Cons.prems, of k v]] p show ?case
    by (simp add: copy_props_Cons)
qed

lemma js_ordered_copy_props:
  "js_ordered (map fst t) \<Longrightarrow> js_ordered (map fst (copy_props t src))"
proof (induction src arbitrary: t)
  case Nil
  then show ?case by (simp add: copy_props_Nil)
next
  case (Cons p src)
  obtain k v where p: "p = (k, v)" by (cases p)
  from Cons.IH [OF js_ordered_set_prop [OF Cons.prems, of k v]] p show ?case
    by (simp add: copy_props_Cons)
qed

text \<open>
  The properties of \<open>{ ...a, ...b }\<close> for two objects: the value of a key is that of \<open>b\<close>
  if \<open>b\<close> has the key and that of \<open>a\<close> otherwise; the keys are those of \<open>a\<close> and of \<open>b\<close>,
  each once, in enumeration order.
\<close>

lemma object_spread_objects:
  assumes "distinct (map fst old)" and "distinct (map fst new)"
  shows "map_of (own_props (object_spread (JObject old) (JObject new))) key
           = (case map_of new key of Some v \<Rightarrow> Some v | None \<Rightarrow> map_of old key)"
    and "fst ` set (own_props (object_spread (JObject old) (JObject new)))
           = fst ` set old \<union> fst ` set new"
    and "distinct (map fst (own_props (object_spread (JObject old) (JObject new))))"
    and "js_ordered (map fst (own_props (object_spread (JObject old) (JObject new))))"
proof -
  have "map_of (copy_props (copy_props [] old) new) = (map_of [] ++ map_of old) ++ map_of new"
    by (simp only: map_of_copy_props [OF assms(2)] map_of_copy_props [OF assms(1)])
  then show "map_of (own_props (object_spread (JObject old) (JObject new))) key
           = (case map_of new key of Some v \<Rightarrow> Some v | None \<Rightarrow> map_of old key)"
    by (simp add: object_spread_def map_add_def)
  show "fst ` set (own_props (object_spread (JObject old) (JObject new)))
           = fst ` set old \<union> fst ` set new"
    by (simp add: object_spread_def keys_copy_props)
  have "distinct (map fst ([] :: (string \<times> json) list))" by simp
  from distinct_copy_props [OF distinct_copy_props [OF this, of old], of new]
  show "distinct (map fst (own_props (object_spread (JObject old) (JObject new))))"
    by (simp add: object_spread_def)
  have "js_ordered (map fst ([] :: (string \<times> json) list))" by simp
  from js_ordered_copy_props [OF js_ordered_copy_props [OF this, of old], of new]
  show "js_ordered (map fst (own_props (object_spread (JObject old) (JObject new))))"
    by (simp add: object_spread_def)
qed

text \<open>
  The keys that are not array indices stay in the order in which they were first written:
  those of the first object, then the new ones of the second.
\<close>

lemma ordinary_keys_insert_index:
  "array_index k = Some n \<Longrightarrow>
     filter (\<lambda>k. array_index k = None) (map fst (insert_index n k v ps))
       = filter (\<lambda>k. array_index k = None) (map fst ps)"
  by (induction ps) (auto split: option.splits)

lemma ordinary_keys_set_prop:
  "filter (\<lambda>k. array_index k = None) (map fst (set_prop k v ps))
     = filter (\<lambda>k. array_index k = None) (map fst ps)
       @ (if array_index k = None \<and> k \<notin> fst ` set ps then [k] else [])"
  by (auto simp: set_prop_def ordinary_keys_insert_index AList.update_keys map_of_eq_None_iff
      split: option.splits)

lemma ordinary_keys_copy_props:
  "distinct (map fst src) \<Longrightarrow>
     filter (\<lambda>k. array_index k = None) (map fst (copy_props t src))
       = filter (\<lambda>k. array_index k = None) (map fst t)
         @ filter (\<lambda>k. array_index k = None \<and> k \<notin> fst ` set t) (map fst src)"
proof (induction src arbitrary: t)
  case Nil
  then show ?case by (simp add: copy_props_Nil)
next
  case (Cons p src)
  obtain k v where p: "p = (k, v)" by (cases p)
  from Cons.prems p have d: "distinct (map fst src)" and nk: "k \<notin> fst ` set src" by auto
  from nk have f: "filter (\<lambda>x. array_index x = None \<and> x \<notin> insert k (fst ` set t)) (map fst src)
              = filter (\<lambda>x. array_index x = None \<and> x \<notin> fst ` set t) (map fst src)"
    by (intro filter_cong) auto
  show ?case
    unfolding p copy_props_Cons Cons.IH [OF d] ordinary_keys_set_prop keys_set_prop f
    by simp
qed

lemma ordinary_keys_object_spread:
  assumes "distinct (map fst old)" and "distinct (map fst new)"
  shows "filter (\<lambda>k. array_index k = None)
           (map fst (own_props (object_spread (JObject old) (JObject new))))
         = filter (\<lambda>k. array_index k = None) (map fst old)
           @ filter (\<lambda>k. array_index k = None \<and> k \<notin> fst ` set old) (map fst new)"
  by (simp add: object_spread_def ordinary_keys_copy_props [OF assms(2)]
      ordinary_keys_copy_props [OF assms(1)] keys_copy_props)

text \<open>A key that is an array index comes first, whenever it is written.\<close>

lemma spread_lists_array_indices_first:
  "object_spread (JObject [(''b'', JNumber 2)]) (JObject [(''1'', JNumber 1)])
     = JObject [(''1'', JNumber 1), (''b'', JNumber 2)]"
  by (simp add: object_spread_def copy_props_def set_prop_def array_index_def
        decimal_value_def digit_val_def dec.simps digit_char_def)


subsection \<open>Merging the arguments of a tool call\<close>

lemma merged_args_objects:
  assumes "JSON_parse E existing = Some (JObject old)"
    and "functionArgs = JObject new
         \<or> (\<exists>a. functionArgs = JString a \<and> JSON_parse E a = Some (JObject new))"
  shows "merged_args E existing functionArgs
           = JSON_stringify E (object_spread (JObject old) (JObject new))"
  using assms by (auto simp: merged_args_def)

lemma function_args_object:
  "fc_args fc = Some (JObject new) \<Longrightarrow> function_args fc = JObject new"
  by (simp add: function_args_def)

lemma function_args_text:
  "a \<noteq> [] \<Longrightarrow> fc_args fc = Some (JString a) \<Longrightarrow> function_args fc = JString a"
  by (simp add: function_args_def)

lemma function_call_step_merges:
  assumes "tool_call_id E s fc = (k, s1)"
    and "map_of (toolCallMap s) k = Some d"
    and "JSON_parse E (tcd_args d) = Some (JObject old)"
    and "fc_args fc = Some (JObject new)
         \<or> (\<exists>a. a \<noteq> [] \<and> fc_args fc = Some (JString a)
                 \<and> JSON_parse E a = Some (JObject new))"
  shows "map_of (toolCallMap (snd (function_call_step E mdl ts s fc))) k
           = Some (d\<lparr> tcd_args :=
                       JSON_stringify E (object_spread (JObject old) (JObject new)) \<rparr>)"
proof -
  from assms(4) have fa: "function_args fc = JObject new
         \<or> (\<exists>a. function_args fc = JString a \<and> JSON_parse E a = Some (JObject new))"
    using function_args_object function_args_text by blast
  from merged_args_objects [OF assms(3) fa]
  have m: "merged_args E (tcd_args d) (function_args fc)
             = JSON_stringify E (object_spread (JObject old) (JObject new))" .
  show ?thesis
    unfolding function_call_step_map [OF assms(1)]
    using assms(2) m by (simp add: AList.update_conv')
qed

lemma function_call_step_emits:
  assumes "tool_call_id E s fc = (k, s1)"
    and "map_of (toolCallMap (snd (function_call_step E mdl ts s fc))) k = Some d"
  shows "map (\<lambda>y. (tc_id (toolCall y), fn_name (tc_function (toolCall y)),
                    fn_arguments (tc_function (toolCall y)), index y))
           (fst (function_call_step E mdl ts s fc))
           = [(k, tcd_name d, tcd_args d, tcd_index d)]"
proof -
  from assms(1) have e: "toolCallMap s1 = toolCallMap s" "nextToolIndex s1 = nextToolIndex s"
    by (auto simp: tool_call_id_def split: if_splits)
  from assms(2) have "d = (case map_of (toolCallMap s) k of
                  None \<Rightarrow> \<lparr> tcd_name = or_str (fc_name fc) [],
                             tcd_args = args_text E (function_args fc),
                             tcd_index = nextToolIndex s \<rparr>
                | Some d0 \<Rightarrow> d0\<lparr> tcd_args := merged_args E (tcd_args d0) (function_args fc) \<rparr>)"
    unfolding function_call_step_map [OF assms(1)] by (simp add: AList.update_conv')
  with assms(1) e show ?thesis
    by (simp add: function_call_step_def Let_def cong: option.case_cong)
qed

text \<open>
  Claim C4.  Two successive fragments of one call, the first arriving under a key that is
  not yet in the map: when the arguments of the first are a JSON object \<open>old\<close> (which
  \<open>JSON.parse\<close> reads back from its print) or a text that parses as \<open>old\<close>, and those of
  the second are a JSON object \<open>new\<close> or a text that parses as \<open>new\<close>, the record then
  holds, and the second chunk reports, the print of the shallow key-wise merge
  \<open>{ ...old, ...new }\<close>: a key of \<open>new\<close> has the value \<open>new\<close> gives it, any other key the value
  \<open>old\<close> gives it, and the keys are those of \<open>old\<close> and of \<open>new\<close>, each once, in enumeration
  order: the array indices first, ascending, then the other keys of \<open>old\<close> followed by the
  other new keys of \<open>new\<close>.  The name and the index are those of the first fragment.
\<close>

theorem C4_shallow_merge:
  assumes "tool_call_id E s fc1 = (k, s1)"
    and "map_of (toolCallMap s) k = None"
    and "tool_call_id E (snd (function_call_step E mdl ts s fc1)) fc2 = (k, s2)"
    and "(fc_args fc1 = Some (JObject old)
            \<and> JSON_parse E (JSON_stringify E (JObject old)) = Some (JObject old))
         \<or> (\<exists>a. a \<noteq> [] \<and> fc_args fc1 = Some (JString a)
                 \<and> JSON_parse E a = Some (JObject old))"
    and "fc_args fc2 = Some (JObject new)
         \<or> (\<exists>a. a \<noteq> [] \<and> fc_args fc2 = Some (JString a)
                 \<and> JSON_parse E a = Some (JObject new))"
    and "distinct (map fst old)" and "distinct (map fst new)"
  shows "map_of (toolCallMap (snd (function_call_step E mdl ts
                                      (snd (function_call_step E mdl ts s fc1)) fc2))) k
           = Some \<lparr> tcd_name = or_str (fc_name fc1) [],
                    tcd_args = JSON_stringify E (object_spread (JObject old) (JObject new)),
                    tcd_index = nextToolIndex s \<rparr>
         \<and> map (\<lambda>y. (tc_id (toolCall y), fn_name (tc_function (toolCall y)),
                       fn_arguments (tc_function (toolCall y)), index y))
             (fst (function_call_step E mdl ts (snd (function_call_step E mdl ts s fc1)) fc2))
           = [(k, or_str (fc_name fc1) [],
               JSON_stringify E (object_spread (JObject old) (JObject new)),
               nextToolIndex s)]
         \<and> (\<forall>key. map_of (own_props (object_spread (JObject old) (JObject new))) key
                = (case map_of new key of Some v \<Rightarrow> Some v | None \<Rightarrow> map_of old key))
         \<and> fst ` set (own_props (object_spread (JObject old) (JObject new)))
             = fst ` set old \<union> fst ` set new
         \<and> distinct (map fst (own_props (object_spread (JObject old) (JObject new))))
         \<and> js_ordered (map fst (own_props (object_spread (JObject old) (JObject new))))
         \<and> filter (\<lambda>key. array_index key = None)
               (map fst (own_props (object_spread (JObject old) (JObject new))))
             = filter (\<lambda>key. array_index key = None) (map fst old)
               @ filter (\<lambda>key. array_index key = None \<and> key \<notin> fst ` set old) (map fst new)"
proof -
  let ?s' = "snd (function_call_step E mdl ts s fc1)"
  let ?d = "\<lparr> tcd_name = or_str (fc_name fc1) [],
               tcd_args = args_text E (function_args fc1),
               tcd_index = nextToolIndex s \<rparr>"
  from assms(1) have "toolCallMap s1 = toolCallMap s"
    by (auto simp: tool_call_id_def split: if_splits)
  with assms(2) have "map_of (toolCallMap s1) k = None" by simp
  from function_call_step_creates [OF assms(1) this]
  have stored: "map_of (toolCallMap ?s') k = Some ?d" .
  from assms(4) have parsed: "JSON_parse E (tcd_args ?d) = Some (JObject old)"
  proof
    assume "fc_args fc1 = Some (JObject old)
            \<and> JSON_parse E (JSON_stringify E (JObject old)) = Some (JObject old)"
    then show ?thesis by (simp add: function_args_object args_text_def)
  next
    assume "\<exists>a. a \<noteq> [] \<and> fc_args fc1 = Some (JString a)
                 \<and> JSON_parse E a = Some (JObject old)"
    then show ?thesis by (auto simp: function_args_text args_text_def)
  qed
  from function_call_step_merges [OF assms(3) stored parsed assms(5)]
  have 1: "map_of (toolCallMap (snd (function_call_step E mdl ts ?s' fc2))) k
           = Some \<lparr> tcd_name = or_str (fc_name fc1) [],
                    tcd_args = JSON_stringify E (object_spread (JObject old) (JObject new)),
                    tcd_index = nextToolIndex s \<rparr>"
    by simp
  from function_call_step_emits [OF assms(3) 1]
  have 2: "map (\<lambda>y. (tc_id (toolCall y), fn_name (tc_function (toolCall y)),
                       fn_arguments (tc_function (toolCall y)), index y))
             (fst (function_call_step E mdl ts ?s' fc2))
           = [(k, or_str (fc_name fc1) [],
               JSON_stringify E (object_spread (JObject old) (JObject new)),
               nextToolIndex s)]"
    by simp
  from 1 2 object_spread_objects [OF assms(6) assms(7)]
    ordinary_keys_object_spread [OF assms(6) assms(7)]
  show ?thesis by simp
qed


theorem C4_witness:
  \<open>map_of (toolCallMap (snd (function_call_step ex_env ''gemini-pro'' 1700
       (snd (function_call_step ex_env ''gemini-pro'' 1700 g_initial
          \<lparr> fc_id = Some ''c1'', fc_name = Some ''calc'',
            fc_args = Some (JObject [(''a'', JNumber 1)]) \<rparr>))
       \<lparr> fc_id = Some ''c1'', fc_name = Some ''calc'',
         fc_args = Some (JObject [(''b'', JNumber 2)]) \<rparr>))) ''c1''
     = Some \<lparr> tcd_name = ''calc'', tcd_args = ''{"a":1,"b":2}'', tcd_index = 0 \<rparr>
   \<and> map_of (toolCallMap (snd (function_call_step ex_env ''gemini-pro'' 1700
       (snd (function_call_step ex_env ''gemini-pro'' 1700 g_initial
          \<lparr> fc_id = Some ''c1'', fc_name = Some ''calc'',
            fc_args = Some (JObject [(''a'', JNumber 1)]) \<rparr>))
       \<lparr> fc_id = Some ''c1'', fc_name = Some ''calc'',
         fc_args = Some (JObject [(''a'', JNumber 2)]) \<rparr>))) ''c1''
     = Some \<lparr> tcd_name = ''calc'', tcd_args = ''{"a":2}'', tcd_index = 0 \<rparr>\<close>
proof -
  let ?f1 = "\<lparr> fc_id = Some ''c1'', fc_name = Some ''calc'',
               fc_args = Some (JObject [(''a'', JNumber 1)]) \<rparr>"
  let ?s' = "snd (function_call_step ex_env ''gemini-pro'' 1700 g_initial ?f1)"
  have k1: "tool_call_id ex_env g_initial ?f1 = (''c1'', g_initial)"
    by (simp add: tool_call_id_def truthy_def)
  have fresh: "map_of (toolCallMap g_initial) ''c1'' = None"
    by (simp add: g_initial_def)
  have k2: "tool_call_id ex_env ?s' \<lparr> fc_id = Some ''c1'', fc_name = Some ''calc'',
               fc_args = Some a \<rparr> = (''c1'', ?s')" for a
    by (simp add: tool_call_id_def truthy_def)
  have rt: "JSON_parse ex_env (JSON_stringify ex_env (JObject [(''a'', JNumber 1)]))
              = Some (JObject [(''a'', JNumber 1)])"
    by (simp add: ex_env_def ex_parse_def dec.simps digit_char_def)
  have ia: "array_index ''a'' = None" and ib: "array_index ''b'' = None"
    by (simp_all add: array_index_def decimal_value_def digit_val_def dec.simps digit_char_def)
  have p1: \<open>JSON_stringify ex_env
              (object_spread (JObject [(''a'', JNumber 1)]) (JObject [(''b'', JNumber 2)]))
              = ''{"a":1,"b":2}''\<close>
    by (simp add: ex_env_def object_spread_def copy_props_def set_prop_def ia ib
          dec.simps digit_char_def)
  have p2: \<open>JSON_stringify ex_env
              (object_spread (JObject [(''a'', JNumber 1)]) (JObject [(''a'', JNumber 2)]))
              = ''{"a":2}''\<close>
    by (simp add: ex_env_def object_spread_def copy_props_def set_prop_def ia
          dec.simps digit_char_def)
  from C4_shallow_merge [where E = ex_env and s = g_initial and ?fc1.0 = ?f1
      and k = "''c1''" and ?s1.0 = g_initial and mdl = "''gemini-pro''" and ts = 1700
      and ?fc2.0 = "\<lparr> fc_id = Some ''c1'', fc_name = Some ''calc'',
                        fc_args = Some (JObject [(''b'', JNumber 2)]) \<rparr>"
      and ?s2.0 = ?s' and old = "[(''a'', JNumber 1)]" and new = "[(''b'', JNumber 2)]",
      OF k1 fresh k2] rt p1
  have 1: \<open>map_of (toolCallMap (snd (function_call_step ex_env ''gemini-pro'' 1700 ?s'
       \<lparr> fc_id = Some ''c1'', fc_name = Some ''calc'',
         fc_args = Some (JObject [(''b'', JNumber 2)]) \<rparr>))) ''c1''
     = Some \<lparr> tcd_name = ''calc'', tcd_args = ''{"a":1,"b":2}'', tcd_index = 0 \<rparr>\<close>
    by (simp add: or_str_def g_initial_def)
  from C4_shallow_merge [where E = ex_env and s = g_initial and ?fc1.0 = ?f1
      and k = "''c1''" and ?s1.0 = g_initial and mdl = "''gemini-pro''" and ts = 1700
      and ?fc2.0 = "\<lparr> fc_id = Some ''c1'', fc_name = Some ''calc'',
                        fc_args = Some (JObject [(''a'', JNumber 2)]) \<rparr>"
      and ?s2.0 = ?s' and old = "[(''a'', JNumber 1)]" and new = "[(''a'', JNumber 2)]",
      OF k1 fresh k2] rt p2
  have 2: \<open>map_of (toolCallMap (snd (function_call_step ex_env ''gemini-pro'' 1700 ?s'
       \<lparr> fc_id = Some ''c1'', fc_name = Some ''calc'',
         fc_args = Some (JObject [(''a'', JNumber 2)]) \<rparr>))) ''c1''
     = Some \<lparr> tcd_name = ''calc'', tcd_args = ''{"a":2}'', tcd_index = 0 \<rparr>\<close>
    by (simp add: or_str_def g_initial_def)
  from 1 2 show ?thesis by simp
qed

text \<open>
  The same two merges in a whole stream: the first fragment of call \<open>c1\<close> creates the
  record, the second is merged into it.
\<close>

lemma merge_from_the_first_fragment:
  \<open>map_option tcd_args (map_of (toolCallMap (snd (processStreamChunks ex_env ''gemini-pro''
      ([ex_g_parts [ex_call_part (Some ''c1'') (Some ''calc'') (Some (JObject [(''a'', JNumber 1)])),
                    ex_call_part (Some ''c1'') (Some ''calc'') (Some (JObject [(''b'', JNumber 2)]))]
          None], None)))) ''c1'')
     = Some ''{"a":1,"b":2}''
   \<and> map_option tcd_args (map_of (toolCallMap (snd (processStreamChunks ex_env ''gemini-pro''
      ([ex_g_parts [ex_call_part (Some ''c1'') (Some ''calc'') (Some (JObject [(''a'', JNumber 1)])),
                    ex_call_part (Some ''c1'') (Some ''calc'') (Some (JObject [(''a'', JNumber 2)]))]
          None], None)))) ''c1'')
     = Some ''{"a":2}''\<close>
proof -
  have ia: "array_index ''a'' = None" and ib: "array_index ''b'' = None"
    by (simp_all add: array_index_def decimal_value_def digit_val_def dec.simps digit_char_def)
  show ?thesis
    by (simp add: processStreamChunks_def g_initial_def g_chunk_step_def part_step_def
        text_step_def finish_step_def function_call_step_def tool_call_id_def function_args_def
        args_text_def merged_args_def object_spread_def copy_props_def set_prop_def ia ib
        ex_g_parts_def ex_call_part_def parts0_def finishReason0_def truthy_def or_str_def
        Let_def ex_env_def ex_parse_def dec.simps digit_char_def)
qed

subsection \<open>Synthesized keys\<close>

lemma key_below_mono: "key_below n k \<Longrightarrow> n \<le> m \<Longrightarrow> key_below m k"
proof -
  assume "key_below n k" and le: "n \<le> m"
  then obtain p i where "k = p @ ''_'' @ dec i" and "i < n" unfolding key_below_def by blast
  with le have "k = p @ ''_'' @ dec i \<and> i < m" by simp
  then show ?thesis unfolding key_below_def by blast
qed

lemma fresh_keys_refl: "fresh_keys s [] s"
  by (simp add: fresh_keys_def call_ids_def)

lemma call_ids_append: "call_ids (ys @ zs) = call_ids ys @ call_ids zs"
  by (simp add: call_ids_def)

lemma fresh_keys_trans:
  assumes a: "fresh_keys s ys s1" and b: "fresh_keys s1 zs s2"
  shows "fresh_keys s (ys @ zs) s2"
  unfolding fresh_keys_def
proof (intro impI)
  assume k0: "keys_below s"
  with a have k1: "keys_below s1" and n1: "nextToolIndex s \<le> nextToolIndex s1"
    and d1: "distinct (call_ids ys)"
    and f1: "\<forall>k \<in> set (call_ids ys).
               key_below (nextToolIndex s1) k \<and> \<not> key_below (nextToolIndex s) k"
    by (simp_all add: fresh_keys_def)
  from b k1 have k2: "keys_below s2" and n2: "nextToolIndex s1 \<le> nextToolIndex s2"
    and d2: "distinct (call_ids zs)"
    and f2: "\<forall>k \<in> set (call_ids zs).
               key_below (nextToolIndex s2) k \<and> \<not> key_below (nextToolIndex s1) k"
    by (simp_all add: fresh_keys_def)
  from f1 f2 have disj: "set (call_ids ys) \<inter> set (call_ids zs) = {}" by blast
  have "\<forall>k \<in> set (call_ids (ys @ zs)).
          key_below (nextToolIndex s2) k \<and> \<not> key_below (nextToolIndex s) k"
    using f1 f2 n1 n2 key_below_mono by (auto simp: call_ids_append)
  with k2 n1 n2 d1 d2 disj
  show "keys_below s2 \<and> nextToolIndex s \<le> nextToolIndex s2 \<and> distinct (call_ids (ys @ zs))
        \<and> (\<forall>k \<in> set (call_ids (ys @ zs)).
              key_below (nextToolIndex s2) k \<and> \<not> key_below (nextToolIndex s) k)"
    by (simp add: call_ids_append)
qed

lemma fresh_keys_silent:
  "toolCallMap s' = toolCallMap s \<Longrightarrow> nextToolIndex s' = nextToolIndex s \<Longrightarrow>
     filter is_tool_call ys = [] \<Longrightarrow> fresh_keys s ys s'"
  by (simp add: fresh_keys_def keys_below_def call_ids_def)

lemma text_step_fresh: "fresh_keys s (fst (text_step E mdl ts s p)) (snd (text_step E mdl ts s p))"
  by (rule fresh_keys_silent) (simp_all add: text_step_def Let_def)

lemma data_step_fresh: "fresh_keys s (fst (data_step E mdl ts s c)) (snd (data_step E mdl ts s c))"
  by (rule fresh_keys_silent) (simp_all add: data_step_def Let_def)

lemma synthesized_key:
  assumes "\<not> truthy (fc_id fc)" and "tool_call_id E s fc = (k, s1)"
  shows "k = (template_str (fc_name fc) @ ''_'' @ dec (Date_now E (clock s))) @ ''_''
               @ dec (nextToolIndex s)"
    and "toolCallMap s1 = toolCallMap s" and "nextToolIndex s1 = nextToolIndex s"
  using assms by (auto simp: tool_call_id_def)

lemma synthesized_key_fresh:
  assumes "\<not> truthy (fc_id fc)" and "tool_call_id E s fc = (k, s1)"
  shows "key_below (Suc (nextToolIndex s)) k" and "\<not> key_below (nextToolIndex s) k"
proof -
  note k = synthesized_key(1) [OF assms]
  show "key_below (Suc (nextToolIndex s)) k"
    unfolding key_below_def using k by blast
  show "\<not> key_below (nextToolIndex s) k"
  proof
    assume "key_below (nextToolIndex s) k"
    then obtain p i where "k = p @ ''_'' @ dec i" and i: "i < nextToolIndex s"
      unfolding key_below_def by blast
    with k have "p @ ''_'' @ dec i
        = (template_str (fc_name fc) @ ''_'' @ dec (Date_now E (clock s))) @ ''_''
            @ dec (nextToolIndex s)"
      by simp
    from counter_suffix_inj [OF this] i show False by simp
  qed
qed

lemma keys_below_absent:
  "keys_below s \<Longrightarrow> \<not> key_below (nextToolIndex s) k \<Longrightarrow> map_of (toolCallMap s) k = None"
  unfolding keys_below_def by (auto simp: map_of_eq_None_iff)

lemma keys_below_update:
  assumes "keys_below s" and "key_below (Suc (nextToolIndex s)) k"
    and "toolCallMap s' = AList.update k d (toolCallMap s)"
    and "nextToolIndex s' = Suc (nextToolIndex s)"
  shows "keys_below s'"
  unfolding keys_below_def
proof
  fix k' assume "k' \<in> fst ` set (toolCallMap s')"
  with assms(3) have "k' = k \<or> k' \<in> fst ` set (toolCallMap s)"
    by (auto simp: AList.dom_update)
  then show "key_below (nextToolIndex s') k'"
  proof
    assume "k' = k"
    with assms(2) assms(4) show ?thesis by simp
  next
    assume "k' \<in> fst ` set (toolCallMap s)"
    with assms(1) have "key_below (nextToolIndex s) k'" unfolding keys_below_def by blast
    from key_below_mono [OF this, of "nextToolIndex s'"] assms(4) show ?thesis by simp
  qed
qed

lemma function_call_step_ids:
  "tool_call_id E s fc = (k, s1) \<Longrightarrow> call_ids (fst (function_call_step E mdl ts s fc)) = [k]"
  by (simp add: function_call_step_def call_ids_def Let_def)

lemma function_call_step_next:
  assumes "tool_call_id E s fc = (k, s1)"
  shows "nextToolIndex (snd (function_call_step E mdl ts s fc))
           = (case map_of (toolCallMap s) k of
                None \<Rightarrow> Suc (nextToolIndex s)
              | Some d \<Rightarrow> nextToolIndex s)"
proof -
  from assms have "toolCallMap s1 = toolCallMap s" and "nextToolIndex s1 = nextToolIndex s"
    by (auto simp: tool_call_id_def split: if_splits)
  with assms show ?thesis
    by (simp add: function_call_step_def Let_def cong: option.case_cong)
qed

lemma function_call_step_fresh:
  assumes "\<not> truthy (fc_id fc)"
  shows "fresh_keys s (fst (function_call_step E mdl ts s fc))
           (snd (function_call_step E mdl ts s fc))"
  unfolding fresh_keys_def
proof (intro impI)
  assume kb: "keys_below s"
  obtain k s1 where t: "tool_call_id E s fc = (k, s1)" by (cases "tool_call_id E s fc")
  note f = synthesized_key_fresh [OF assms t]
  from keys_below_absent [OF kb f(2)] have none: "map_of (toolCallMap s) k = None" .
  let ?s' = "snd (function_call_step E mdl ts s fc)"
  from function_call_step_next [OF t, of mdl ts] none
  have n: "nextToolIndex ?s' = Suc (nextToolIndex s)" by simp
  from keys_below_update [OF kb f(1) function_call_step_map [OF t, of mdl ts] n]
  have "keys_below ?s'" .
  with n f function_call_step_ids [OF t, of mdl ts]
  show "keys_below ?s' \<and> nextToolIndex s \<le> nextToolIndex ?s'
        \<and> distinct (call_ids (fst (function_call_step E mdl ts s fc)))
        \<and> (\<forall>k \<in> set (call_ids (fst (function_call_step E mdl ts s fc))).
              key_below (nextToolIndex ?s') k \<and> \<not> key_below (nextToolIndex s) k)"
    by simp
qed

lemma unexpected_part_step_fresh:
  assumes "case p_functionCall p of None \<Rightarrow> True | Some fc \<Rightarrow> \<not> truthy (fc_id fc)"
  shows "fresh_keys s (fst (unexpected_part_step E mdl ts s p))
           (snd (unexpected_part_step E mdl ts s p))"
proof (cases "p_functionCall p")
  case None
  then show ?thesis by (simp add: unexpected_part_step_def fresh_keys_refl)
next
  case (Some fc)
  with assms have nid: "\<not> truthy (fc_id fc)" by simp
  obtain k s1 where t: "tool_call_id E s fc = (k, s1)" by (cases "tool_call_id E s fc")
  note f = synthesized_key_fresh [OF nid t]
  note e = synthesized_key(2,3) [OF nid t]
  let ?s' = "snd (unexpected_part_step E mdl ts s p)"
  have m: "toolCallMap ?s' = AList.update k
             \<lparr> tcd_name = or_str (fc_name fc) [],
               tcd_args = args_text E (function_args fc),
               tcd_index = nextToolIndex s \<rparr> (toolCallMap s)"
    and n: "nextToolIndex ?s' = Suc (nextToolIndex s)"
    and i: "call_ids (fst (unexpected_part_step E mdl ts s p)) = [k]"
    using Some t e by (simp_all add: unexpected_part_step_def Let_def call_ids_def)
  show ?thesis
    unfolding fresh_keys_def
  proof (intro impI)
    assume kb: "keys_below s"
    from keys_below_update [OF kb f(1) m n] have "keys_below ?s'" .
    with n f i
    show "keys_below ?s' \<and> nextToolIndex s \<le> nextToolIndex ?s'
        \<and> distinct (call_ids (fst (unexpected_part_step E mdl ts s p)))
        \<and> (\<forall>k \<in> set (call_ids (fst (unexpected_part_step E mdl ts s p))).
              key_below (nextToolIndex ?s') k \<and> \<not> key_below (nextToolIndex s) k)"
      by simp
  qed
qed


lemma for_each_fresh:
  assumes "\<And>s x. x \<in> set xs \<Longrightarrow> fresh_keys s (fst (body s x)) (snd (body s x))"
  shows "fresh_keys s (fst (for_each body s xs)) (snd (for_each body s xs))"
  by (rule for_each_rel [where R = fresh_keys])
    (auto intro: fresh_keys_refl fresh_keys_trans assms)

lemma part_step_fresh:
  assumes "case p_functionCall p of None \<Rightarrow> True | Some fc \<Rightarrow> \<not> truthy (fc_id fc)"
  shows "fresh_keys s (fst (part_step E mdl ts s p)) (snd (part_step E mdl ts s p))"
proof -
  obtain ys1 s1 where 1: "text_step E mdl ts s p = (ys1, s1)" by (cases "text_step E mdl ts s p")
  from text_step_fresh [of s E mdl ts p] 1 have a1: "fresh_keys s ys1 s1" by simp
  show ?thesis
  proof (cases "p_functionCall p")
    case None
    with 1 a1 show ?thesis by (simp add: part_step_def)
  next
    case (Some fc)
    with assms have nid: "\<not> truthy (fc_id fc)" by simp
    obtain ys2 s2 where 2: "function_call_step E mdl ts s1 fc = (ys2, s2)"
      by (cases "function_call_step E mdl ts s1 fc")
    from function_call_step_fresh [OF nid, of s1 E mdl ts] 2 have a2: "fresh_keys s1 ys2 s2"
      by simp
    from fresh_keys_trans [OF a1 a2] 1 2 Some show ?thesis by (simp add: part_step_def)
  qed
qed

lemma finish_step_fresh:
  assumes "case parts0 c of
             None \<Rightarrow> True
           | Some ps \<Rightarrow> list_all (\<lambda>p. case p_functionCall p of
                                         None \<Rightarrow> True
                                       | Some fc \<Rightarrow> \<not> truthy (fc_id fc)) ps"
  shows "fresh_keys s (fst (finish_step E mdl ts s c)) (snd (finish_step E mdl ts s c))"
proof (cases "finishReason0 c")
  case None
  then show ?thesis by (simp add: finish_step_def fresh_keys_refl)
next
  case (Some fr)
  define r1 where "r1 = (if fr = UNEXPECTED_TOOL_CALL
                 then (case parts0 c of
                         None \<Rightarrow> ([], s)
                       | Some ps \<Rightarrow> for_each (unexpected_part_step E mdl ts) s ps)
                 else ([], s))"
  obtain ys1 s1 where 1: "r1 = (ys1, s1)" by (cases r1)
  have a1: "fresh_keys s ys1 s1"
  proof (cases "fr = UNEXPECTED_TOOL_CALL \<and> parts0 c \<noteq> None")
    case True
    then obtain ps where ps: "parts0 c = Some ps" by auto
    with assms have "\<forall>p \<in> set ps. case p_functionCall p of
                                     None \<Rightarrow> True
                                   | Some fc \<Rightarrow> \<not> truthy (fc_id fc)"
      by (simp add: list_all_iff)
    then have "fresh_keys s (fst (for_each (unexpected_part_step E mdl ts) s ps))
            (snd (for_each (unexpected_part_step E mdl ts) s ps))"
      by (intro for_each_fresh unexpected_part_step_fresh) blast
    then show ?thesis using True ps 1 by (simp add: r1_def)
  next
    case False
    with 1 have "ys1 = [] \<and> s1 = s" by (auto simp: r1_def split: if_splits)
    then show ?thesis by (simp add: fresh_keys_refl)
  qed
  define r2 where "r2 = (if fr = MAX_TOKENS
                      then ([Error (generateId E (ids s1)) mdl ts
                               \<lparr> message = max_tokens_message, code = None \<rparr>],
                            s1\<lparr> ids := Suc (ids s1) \<rparr>)
                      else ([], s1))"
  obtain ys2 s2 where 2: "r2 = (ys2, s2)" by (cases r2)
  have a2: "fresh_keys s1
              (ys2 @ [Done (generateId E (ids s2)) mdl ts
                        (if toolCallMap s2 \<noteq> [] then ''tool_calls'' else ''stop'')
                        (map_option g_usage_of (g_usageMetadata c))])
              (s2\<lparr> ids := Suc (ids s2) \<rparr>)"
    by (rule fresh_keys_silent) (use 2 in \<open>auto simp: r2_def split: if_splits\<close>)
  from fresh_keys_trans [OF a1 a2] Some 1 2
  show ?thesis by (simp add: finish_step_def r1_def [symmetric] r2_def [symmetric])
qed

lemma g_chunk_step_fresh:
  assumes "case parts0 c of
             None \<Rightarrow> True
           | Some ps \<Rightarrow> list_all (\<lambda>p. case p_functionCall p of
                                         None \<Rightarrow> True
                                       | Some fc \<Rightarrow> \<not> truthy (fc_id fc)) ps"
  shows "fresh_keys s (fst (g_chunk_step E mdl ts s c)) (snd (g_chunk_step E mdl ts s c))"
proof -
  define r1 where "r1 = (case parts0 c of
              Some ps \<Rightarrow> for_each (part_step E mdl ts) s ps
            | None \<Rightarrow> data_step E mdl ts s c)"
  obtain ys1 s1 where 1: "r1 = (ys1, s1)" by (cases r1)
  obtain ys2 s2 where 2: "finish_step E mdl ts s1 c = (ys2, s2)"
    by (cases "finish_step E mdl ts s1 c")
  have a1: "fresh_keys s ys1 s1"
  proof (cases "parts0 c")
    case None
    with data_step_fresh [of s E mdl ts c] 1 show ?thesis by (simp add: r1_def)
  next
    case (Some ps)
    with assms have "\<forall>p \<in> set ps. case p_functionCall p of
                                     None \<Rightarrow> True
                                   | Some fc \<Rightarrow> \<not> truthy (fc_id fc)"
      by (simp add: list_all_iff)
    then have "fresh_keys s (fst (for_each (part_step E mdl ts) s ps))
            (snd (for_each (part_step E mdl ts) s ps))"
      by (intro for_each_fresh part_step_fresh) blast
    then show ?thesis using Some 1 by (simp add: r1_def)
  qed
  from finish_step_fresh [OF assms, of s1 E mdl ts] 2 have a2: "fresh_keys s1 ys2 s2" by simp
  from fresh_keys_trans [OF a1 a2] 1 2
  show ?thesis by (simp add: g_chunk_step_def r1_def [symmetric])
qed

lemma processStreamChunks_distinct_keys:
  assumes "no_vendor_ids cs"
  shows "distinct (call_ids (fst (fst (processStreamChunks E mdl (cs, failure)))))"
proof -
  have "fresh_keys g_initial
          (fst (for_each (g_chunk_step E mdl (Date_now E 0)) g_initial cs))
          (snd (for_each (g_chunk_step E mdl (Date_now E 0)) g_initial cs))"
    by (intro for_each_fresh g_chunk_step_fresh)
      (use assms in \<open>simp add: no_vendor_ids_def list_all_iff\<close>)
  moreover have "keys_below g_initial" by (simp add: keys_below_def g_initial_def)
  ultimately show ?thesis by (simp add: fresh_keys_def processStreamChunks_out)
qed

lemma oa_tool_call_step_key:
  "\<not> truthy (oatc_id t) \<Longrightarrow>
     call_ids (fst (oa_tool_call_step now c ts s t)) = [''call_'' @ dec (now (oa_clock s))]"
  by (simp add: oa_tool_call_step_def call_ids_def Let_def)

text \<open>
  Claim C5, as stated, fails.  The OpenAI adapter replaces a missing id by
  \<open>call_${Date.now()}\<close>, without the function name and without a counter: two calls of one
  vendor chunk that lack an id get the same key when the clock does not advance between
  them.  The Gemini adapter uses the time of the fragment, not the stream's \<open>timestamp\<close>.
\<close>

theorem C5_counterexample:
  "call_ids (fst (openai_chatStream (\<lambda>k. 1700) ''err-1'' None
      (Inr ([\<lparr> oc_id = ''chatcmpl-1'', oc_model = ''gpt-4o'',
              oc_choices = [\<lparr> ch_delta = Some \<lparr> d_content = None, d_role = None,
                  d_tool_calls = Some
                    [\<lparr> oatc_index = Some 0, oatc_id = None,
                       oatc_function = Some \<lparr> oaf_name = Some ''add'', oaf_arguments = None \<rparr> \<rparr>,
                     \<lparr> oatc_index = Some 1, oatc_id = None,
                       oatc_function = Some \<lparr> oaf_name = Some ''mul'', oaf_arguments = None \<rparr> \<rparr>] \<rparr>,
                ch_finish_reason = None \<rparr>],
              oc_usage = None \<rparr>], None))))
     = [''call_1700'', ''call_1700'']
   \<and> map (\<lambda>y. (timestamp y, tc_id (toolCall y)))
       (fst (gemini_chatStream ex_env ''gemini-pro''
         (Inr ([ex_g_parts [ex_call_part None (Some ''calc'') None] None], None))))
     = [(1700, ''calc_1701_0'')]"
  by (simp add: openai_chatStream_def oa_initial_def oa_chunk_step_def oa_content_step_def
        oa_tools_step_def oa_done_step_def oa_tool_call_step_def delta_content_def delta0_def
        choice0_def finish_reason0_def truthy_def call_ids_def Let_def dec.simps digit_char_def
        gemini_chatStream_def processStreamChunks_def g_initial_def g_chunk_step_def
        part_step_def text_step_def finish_step_def function_call_step_def tool_call_id_def
        template_str_def function_args_def args_text_def ex_g_parts_def ex_call_part_def
        parts0_def finishReason0_def ex_env_def or_str_def or_num_def)

text \<open>
  Claim C5, amended.  For a fragment without a vendor id the Gemini adapter makes the
  key from the function name, the time of the fragment and the counter \<open>nextToolIndex\<close>,
  and in a Gemini stream in which no fragment carries a vendor id the keys of all emitted
  tool calls are pairwise distinct.  The OpenAI adapter makes the key \<open>call_\<close> followed
  by the time of the fragment.
\<close>

theorem C5_synthesized_keys:
  "(\<not> truthy (fc_id fc) \<longrightarrow>
      fst (tool_call_id E s fc)
        = template_str (fc_name fc) @ ''_'' @ dec (Date_now E (clock s)) @ ''_''
            @ dec (nextToolIndex s))
   \<and> (no_vendor_ids cs \<longrightarrow>
        distinct (call_ids (fst (fst (processStreamChunks E mdl (cs, failure))))))
   \<and> (\<not> truthy (oatc_id t) \<longrightarrow>
        call_ids (fst (oa_tool_call_step now c ts os t))
          = [''call_'' @ dec (now (oa_clock os))])"
  using processStreamChunks_distinct_keys [of cs E mdl failure]
    oa_tool_call_step_key [of t now c ts os]
  by (simp add: tool_call_id_def)

theorem C5_witness:
  "call_ids (fst (fst (processStreamChunks ex_env ''gemini-pro''
      ([ex_g_parts [ex_call_part None (Some ''calc'') None,
                    ex_call_part None (Some ''calc'') None] (Some STOP)], None))))
     = [''calc_1701_0'', ''calc_1702_1'']
   \<and> distinct (call_ids (fst (fst (processStreamChunks ex_env ''gemini-pro''
      ([ex_g_parts [ex_call_part None (Some ''calc'') None,
                    ex_call_part None (Some ''calc'') None] (Some STOP)], None)))))"
proof -
  have h: "no_vendor_ids [ex_g_parts [ex_call_part None (Some ''calc'') None,
                    ex_call_part None (Some ''calc'') None] (Some STOP)]"
    by (simp add: no_vendor_ids_def ex_g_parts_def ex_call_part_def parts0_def truthy_def)
  have v: "call_ids (fst (fst (processStreamChunks ex_env ''gemini-pro''
      ([ex_g_parts [ex_call_part None (Some ''calc'') None,
                    ex_call_part None (Some ''calc'') None] (Some STOP)], None))))
     = [''calc_1701_0'', ''calc_1702_1'']"
    by (simp add: processStreamChunks_def g_initial_def g_chunk_step_def
        part_step_def text_step_def finish_step_def function_call_step_def tool_call_id_def
        template_str_def function_args_def args_text_def ex_g_parts_def ex_call_part_def
        parts0_def finishReason0_def ex_env_def or_str_def truthy_def call_ids_def Let_def
        dec.simps digit_char_def)
  from C5_synthesized_keys [where cs = "[ex_g_parts [ex_call_part None (Some ''calc'') None,
                    ex_call_part None (Some ''calc'') None] (Some STOP)]"
      and E = ex_env and mdl = "''gemini-pro''" and failure = None] h v
  show ?thesis by blast
qed

subsection \<open>The tool-calling loop\<close>

lemma execute_tools_ok:
  "list_all (parses P) calls \<Longrightarrow>
     snd (execute_tools P messages calls) = None
     \<and> tool_rounds (fst (execute_tools P messages calls)) = tool_rounds messages"
proof (induction calls arbitrary: messages)
  case Nil
  show ?case by simp
next
  case (Cons call calls)
  from Cons.prems have pc: "parses P call" and rest: "list_all (parses P) calls" by simp_all
  from pc obtain v where v: "parse_arguments P (fn_arguments (tc_function call)) = Some v"
    and nn: "v \<noteq> JNull"
    by (auto simp: parses_def split: option.splits)
  let ?m = "\<lparr> msg_role = ''tool'',
               msg_content = Some (calculate P (case v of JObject kvs \<Rightarrow> map_of kvs ''expression''
                                                | _ \<Rightarrow> None)),
               msg_toolCalls = None, msg_toolCallId = Some (tc_id call),
               msg_name = Some (fn_name (tc_function call)) \<rparr>"
  have step: "execute_tools P messages (call # calls) = execute_tools P (messages @ [?m]) calls"
    using v nn by (cases v) simp_all
  have "tool_rounds (messages @ [?m]) = tool_rounds messages" by (simp add: tool_rounds_def)
  with Cons.IH [OF rest, of "messages @ [?m]"] step show ?case by simp
qed

lemma execute_tools_rounds:
  "tool_rounds (fst (execute_tools P messages calls)) = tool_rounds messages"
proof (induction calls arbitrary: messages)
  case Nil
  show ?case by simp
next
  case (Cons call calls)
  show ?case
  proof (cases "parse_arguments P (fn_arguments (tc_function call))")
    case None
    then show ?thesis by simp
  next
    case (Some v)
    let ?m = "\<lparr> msg_role = ''tool'',
               msg_content = Some (calculate P (case v of JObject kvs \<Rightarrow> map_of kvs ''expression''
                                                | _ \<Rightarrow> None)),
               msg_toolCalls = None, msg_toolCallId = Some (tc_id call),
               msg_name = Some (fn_name (tc_function call)) \<rparr>"
    have r: "tool_rounds (messages @ [?m]) = tool_rounds messages" by (simp add: tool_rounds_def)
    show ?thesis
    proof (cases "v = JNull")
      case True
      with Some show ?thesis by simp
    next
      case False
      with Some have "execute_tools P messages (call # calls)
                        = execute_tools P (messages @ [?m]) calls"
        by (cases v) simp_all
      with Cons.IH [of "messages @ [?m]"] r show ?thesis by simp
    qed
  qed
qed


lemma tool_rounds_assistant:
  "tool_rounds (messages @ [\<lparr> msg_role = ''assistant'', msg_content = c,
                               msg_toolCalls = Some calls, msg_toolCallId = None,
                               msg_name = None \<rparr>])
     = Suc (tool_rounds messages)"
  by (simp add: tool_rounds_def)

lemma demo_loop_bound:
  "tool_rounds (final_messages (demo_loop P maxIterations iteration messages))
     \<le> tool_rounds messages + (maxIterations - iteration)"
proof (induction P maxIterations iteration messages rule: demo_loop.induct)
  case (1 P maxIterations iteration messages)
  show ?case
  proof (cases "iteration < maxIterations")
    case False
    then show ?thesis by (subst demo_loop.simps) simp
  next
    case lt: True
    obtain chunks failure where sc: "streamChat P messages = (chunks, failure)"
      by (cases "streamChat P messages")
    show ?thesis
    proof (cases failure)
      case (Some e)
      with lt sc show ?thesis by (subst demo_loop.simps) simp
    next
      case None
      define st where "st = fold on_chunk chunks round_initial"
      show ?thesis
      proof (cases "rs_toolCalls st = []")
        case True
        with lt sc None show ?thesis by (subst demo_loop.simps) (simp add: st_def)
      next
        case False
        let ?a = "\<lparr> msg_role = ''assistant'',
                     msg_content = (if rs_content st = [] then None else Some (rs_content st)),
                     msg_toolCalls = Some (rs_toolCalls st),
                     msg_toolCallId = None, msg_name = None \<rparr>"
        obtain messages' x where ex: "execute_tools P (messages @ [?a]) (rs_toolCalls st)
                                        = (messages', x)"
          by (cases "execute_tools P (messages @ [?a]) (rs_toolCalls st)")
        from execute_tools_rounds [of P "messages @ [?a]" "rs_toolCalls st"] ex
        have r: "tool_rounds messages' = Suc (tool_rounds messages)"
          by (simp add: tool_rounds_assistant)
        show ?thesis
        proof (cases x)
          case (Some err)
          with lt sc None False ex r show ?thesis
            by (subst demo_loop.simps) (simp add: st_def [symmetric])
        next
          case n: None
          from "1.IH" [OF lt sc [symmetric] None st_def False ex [symmetric] n]
          have "tool_rounds (final_messages (demo_loop P maxIterations (Suc iteration) messages'))
                  \<le> tool_rounds messages' + (maxIterations - Suc iteration)" .
          moreover have "demo_loop P maxIterations iteration messages
                           = demo_loop P maxIterations (Suc iteration) messages'"
            using lt sc None False ex n
            by (subst demo_loop.simps) (simp add: st_def [symmetric])
          ultimately show ?thesis using r lt by simp
        qed
      qed
    qed
  qed
qed

lemma demo_loop_always:
  assumes "\<forall>m. requests_tools P m"
  shows "status (demo_loop P maxIterations iteration messages) = Complete
         \<and> tool_rounds (final_messages (demo_loop P maxIterations iteration messages))
             = tool_rounds messages + (maxIterations - iteration)
         \<and> final_iteration (demo_loop P maxIterations iteration messages)
             = max maxIterations iteration"
  using assms
proof (induction P maxIterations iteration messages rule: demo_loop.induct)
  case (1 P maxIterations iteration messages)
  show ?case
  proof (cases "iteration < maxIterations")
    case False
    then show ?thesis by (subst demo_loop.simps, subst demo_loop.simps, subst demo_loop.simps) simp
  next
    case lt: True
    from "1.prems" have rt: "requests_tools P messages" by simp
    obtain chunks failure where sc: "streamChat P messages = (chunks, failure)"
      by (cases "streamChat P messages")
    define st where "st = fold on_chunk chunks round_initial"
    from rt sc have None: "failure = None" and ne: "rs_toolCalls st \<noteq> []"
      and ok: "list_all (parses P) (rs_toolCalls st)"
      by (auto simp: requests_tools_def st_def split: option.splits)
    let ?a = "\<lparr> msg_role = ''assistant'',
                 msg_content = (if rs_content st = [] then None else Some (rs_content st)),
                 msg_toolCalls = Some (rs_toolCalls st),
                 msg_toolCallId = None, msg_name = None \<rparr>"
    obtain messages' x where ex: "execute_tools P (messages @ [?a]) (rs_toolCalls st)
                                    = (messages', x)"
      by (cases "execute_tools P (messages @ [?a]) (rs_toolCalls st)")
    from execute_tools_ok [OF ok, of "messages @ [?a]"] ex
    have n: "x = None" and r: "tool_rounds messages' = Suc (tool_rounds messages)"
      by (simp_all add: tool_rounds_assistant)
    have eq: "demo_loop P maxIterations iteration messages
                = demo_loop P maxIterations (Suc iteration) messages'"
      using lt sc None ne ex n
      by (subst demo_loop.simps) (simp add: st_def [symmetric])
    from "1.IH" [OF lt sc [symmetric] None st_def ne ex [symmetric] n "1.prems"] eq r lt
    show ?thesis by (simp add: max_def)
  qed
qed

text \<open>
  Claim C6, as stated, fails: a model that always requests a tool call can request it
  with arguments that \<open>JSON.parse\<close> rejects (here the empty text).  The loop then leaves
  through the exception in its first round instead of completing.
\<close>

theorem C6_counterexample:
  "status (demo_loop (ex_demo_env []) 1 0 [ex_user_message]) = Failed JSON_SyntaxError
   \<and> (\<forall>messages. map is_tool_call (fst (streamChat (ex_demo_env []) messages)) = [True, False])
   \<and> (\<forall>messages. map finishReason (filter is_done (fst (streamChat (ex_demo_env []) messages)))
         = [''tool_calls''])"
  by (subst demo_loop.simps)
    (simp add: ex_demo_env_def ex_user_message_def round_initial_def ex_parse_def Let_def)

text \<open>
  Claim C6, amended.  The loop always terminates, after at most \<open>maxIterations\<close>
  tool-execution rounds.  If in every round the stream ends normally with at least one
  tool call and the arguments of every call parse as JSON other than \<open>null\<close>, it executes
  exactly \<open>maxIterations\<close> tool-execution rounds and completes normally; with
  \<open>maxIterations = 1\<close> that is exactly one round.
\<close>

theorem C6_bounded_tool_rounds:
  "tool_rounds (final_messages (demo_loop P maxIterations iteration messages))
     \<le> tool_rounds messages + (maxIterations - iteration)
   \<and> ((\<forall>m. requests_tools P m) \<longrightarrow>
        status (demo_loop P maxIterations 0 messages) = Complete
        \<and> tool_rounds (final_messages (demo_loop P maxIterations 0 messages))
            = tool_rounds messages + maxIterations
        \<and> final_iteration (demo_loop P maxIterations 0 messages) = maxIterations)
   \<and> ((\<forall>m. requests_tools P m) \<longrightarrow>
        status (demo_loop P 1 0 messages) = Complete
        \<and> tool_rounds (final_messages (demo_loop P 1 0 messages)) = tool_rounds messages + 1)"
  using demo_loop_bound [of P maxIterations iteration messages]
    demo_loop_always [of P maxIterations 0 messages]
    demo_loop_always [of P 1 0 messages]
  by simp

theorem C6_witness:
  \<open>status (demo_loop (ex_demo_env ''{"expression":"2+2"}'') 1 0 [ex_user_message]) = Complete
   \<and> tool_rounds (final_messages
        (demo_loop (ex_demo_env ''{"expression":"2+2"}'') 1 0 [ex_user_message])) = 1
   \<and> status (demo_loop (ex_demo_env ''{"expression":"2+2"}'') 2 0 [ex_user_message]) = Complete
   \<and> tool_rounds (final_messages
        (demo_loop (ex_demo_env ''{"expression":"2+2"}'') 2 0 [ex_user_message])) = 2\<close>
proof -
  have h: \<open>\<forall>m. requests_tools (ex_demo_env ''{"expression":"2+2"}'') m\<close>
    by (simp add: requests_tools_def ex_demo_env_def round_initial_def parses_def ex_parse_def)
  have z: "tool_rounds [ex_user_message] = 0"
    by (simp add: tool_rounds_def ex_user_message_def)
  from C6_bounded_tool_rounds [where P = \<open>ex_demo_env ''{"expression":"2+2"}''\<close>
      and messages = "[ex_user_message]" and maxIterations = 2] h z
  show ?thesis by simp
qed

subsection \<open>Server-sent events\<close>

lemma sse_record_inj: "sse_record a = sse_record b \<longleftrightarrow> a = b"
  by (simp add: sse_record_def)

text \<open>
  Claim C7, as stated, fails: when the source sequence throws, \<open>toReadableStream\<close> ends
  the serialized stream with an error record and never sends the completion marker.
\<close>

theorem C7_counterexample:
  \<open>toReadableStream ex_stringify
      ([Content ''c-1'' ''gpt-4o'' 1700 ''Hi'' ''Hi'' ''assistant''],
       Some \<lparr> is_Error = True, err_message = Some ''socket hang up'', err_code = None \<rparr>)
    = [sse_record ''{"type":"content","id":"c-1","model":"gpt-4o","timestamp":1700,"delta":"Hi","content":"Hi","role":"assistant"}'',
       sse_record ''{"type":"error","error":{"message":"socket hang up"}}'']
   \<and> done_marker \<notin> set (toReadableStream ex_stringify
      ([Content ''c-1'' ''gpt-4o'' 1700 ''Hi'' ''Hi'' ''assistant''],
       Some \<lparr> is_Error = True, err_message = Some ''socket hang up'', err_code = None \<rparr>))\<close>
  by (simp add: toReadableStream_def caught_error_json_def error_json_def or_str_def
        done_marker_def sse_record_inj dec.simps digit_char_def)


lemma chunk_json_is_object: "\<exists>kvs. chunk_json c = JObject kvs"
  by (cases c) simp_all

text \<open>
  Claim C7, amended.  The bridge writes one record \<open>data: <json of the chunk>\<close>, ended by
  two line feeds, per chunk, in order.  When the source sequence ends without throwing,
  whatever its last chunk is, the last record is \<open>data: [DONE]\<close> with two line feeds, and
  (as no object prints as \<open>[DONE]\<close>) that record differs from every event record.  When
  the source throws, the last record is an error record and no marker is sent.  The PHP
  servers do the same with their formatter.
\<close>

theorem C7_sse_framing:
  "toReadableStream S (ys, None)
     = map (\<lambda>c. ''data: '' @ S (chunk_json c) @ [CHR 0x0A, CHR 0x0A]) ys
       @ [''data: [DONE]'' @ [CHR 0x0A, CHR 0x0A]]
   \<and> toReadableStream S (ys, Some e)
     = map (\<lambda>c. ''data: '' @ S (chunk_json c) @ [CHR 0x0A, CHR 0x0A]) ys
       @ [''data: '' @ S (caught_error_json e) @ [CHR 0x0A, CHR 0x0A]]
   \<and> php_chat_stream enc convertEvent convertError (Inr (events, None))
     = map (\<lambda>c. ''data: '' @ enc c @ [CHR 0x0A, CHR 0x0A]) (concat (map convertEvent events))
       @ [''data: [DONE]'' @ [CHR 0x0A, CHR 0x0A]]
   \<and> php_chat_stream enc convertEvent convertError (Inr (events, Some e))
     = map (\<lambda>c. ''data: '' @ enc c @ [CHR 0x0A, CHR 0x0A]) (concat (map convertEvent events))
       @ [''data: '' @ enc (convertError e) @ [CHR 0x0A, CHR 0x0A]]
   \<and> ((\<forall>kvs. S (JObject kvs) \<noteq> ''[DONE]'') \<longrightarrow>
        done_marker \<notin> set (map (\<lambda>c. sse_record (S (chunk_json c))) ys)
        \<and> done_marker \<noteq> sse_record (S (caught_error_json e)))"
proof -
  have "done_marker \<notin> set (map (\<lambda>c. sse_record (S (chunk_json c))) ys)
        \<and> done_marker \<noteq> sse_record (S (caught_error_json e))"
    if h: "\<forall>kvs. S (JObject kvs) \<noteq> ''[DONE]''"
  proof -
    have "done_marker \<noteq> sse_record (S (chunk_json c))" for c
    proof -
      from chunk_json_is_object obtain kvs where "chunk_json c = JObject kvs" by blast
      with h show ?thesis by (simp add: done_marker_def sse_record_inj) metis
    qed
    moreover have "done_marker \<noteq> sse_record (S (caught_error_json e))"
      using h by (simp add: done_marker_def sse_record_inj caught_error_json_def) metis
    ultimately show ?thesis by auto
  qed
  then show ?thesis
    by (simp add: toReadableStream_def php_chat_stream_def formatChunk_def formatDone_def
          sse_record_def done_marker_def)
qed

theorem C7_witness:
  \<open>toReadableStream ex_stringify
      ([Content ''c-1'' ''gpt-4o'' 1700 ''Hi'' ''Hi'' ''assistant'',
        Done ''c-1'' ''gpt-4o'' 1700 ''stop'' None], None)
    = [sse_record ''{"type":"content","id":"c-1","model":"gpt-4o","timestamp":1700,"delta":"Hi","content":"Hi","role":"assistant"}'',
       sse_record ''{"type":"done","id":"c-1","model":"gpt-4o","timestamp":1700,"finishReason":"stop"}'',
       sse_record ''[DONE]'']
   \<and> done_marker \<notin> set (map (\<lambda>c. sse_record (ex_stringify (chunk_json c)))
        [Content ''c-1'' ''gpt-4o'' 1700 ''Hi'' ''Hi'' ''assistant'',
         Done ''c-1'' ''gpt-4o'' 1700 ''stop'' None])\<close>
proof -
  have h: "\<forall>kvs. ex_stringify (JObject kvs) \<noteq> ''[DONE]''" by simp
  from C7_sse_framing [where S = ex_stringify
      and ys = "[Content ''c-1'' ''gpt-4o'' 1700 ''Hi'' ''Hi'' ''assistant'',
                 Done ''c-1'' ''gpt-4o'' 1700 ''stop'' None]"] h
  have 1: "toReadableStream ex_stringify
      ([Content ''c-1'' ''gpt-4o'' 1700 ''Hi'' ''Hi'' ''assistant'',
        Done ''c-1'' ''gpt-4o'' 1700 ''stop'' None], None)
     = map (\<lambda>c. ''data: '' @ ex_stringify (chunk_json c) @ [CHR 0x0A, CHR 0x0A])
         [Content ''c-1'' ''gpt-4o'' 1700 ''Hi'' ''Hi'' ''assistant'',
          Done ''c-1'' ''gpt-4o'' 1700 ''stop'' None]
       @ [''data: [DONE]'' @ [CHR 0x0A, CHR 0x0A]]"
    and 2: "done_marker \<notin> set (map (\<lambda>c. sse_record (ex_stringify (chunk_json c)))
        [Content ''c-1'' ''gpt-4o'' 1700 ''Hi'' ''Hi'' ''assistant'',
         Done ''c-1'' ''gpt-4o'' 1700 ''stop'' None])"
    by blast+
  from 1 2 show ?thesis
    by (simp add: sse_record_def dec.simps digit_char_def)
qed

subsection \<open>Name and index of a tool-call record\<close>

lemma keeps_identity_refl: "keeps_identity s s"
  by (simp add: keeps_identity_def)

lemma keeps_identity_trans:
  "keeps_identity s s1 \<Longrightarrow> keeps_identity s1 s2 \<Longrightarrow> keeps_identity s s2"
proof -
  assume a: "keeps_identity s s1" and b: "keeps_identity s1 s2"
  show ?thesis
    unfolding keeps_identity_def
  proof (intro allI impI)
    fix k d assume "map_of (toolCallMap s) k = Some d"
    with a have "map_option tcd_name (map_of (toolCallMap s1) k) = Some (tcd_name d)"
      and "map_option tcd_index (map_of (toolCallMap s1) k) = Some (tcd_index d)"
      by (simp_all add: keeps_identity_def)
    then obtain d1 where d1: "map_of (toolCallMap s1) k = Some d1"
      and "tcd_name d1 = tcd_name d" and "tcd_index d1 = tcd_index d"
      by (cases "map_of (toolCallMap s1) k") simp_all
    with b show "map_option tcd_name (map_of (toolCallMap s2) k) = Some (tcd_name d)
          \<and> map_option tcd_index (map_of (toolCallMap s2) k) = Some (tcd_index d)"
      unfolding keeps_identity_def by metis
  qed
qed

lemma keeps_identity_same_map: "toolCallMap s' = toolCallMap s \<Longrightarrow> keeps_identity s s'"
  by (simp add: keeps_identity_def)

lemma text_step_keeps: "keeps_identity s (snd (text_step E mdl ts s p))"
  by (rule keeps_identity_same_map) (simp add: text_step_def Let_def)

lemma data_step_keeps: "keeps_identity s (snd (data_step E mdl ts s c))"
  by (rule keeps_identity_same_map) (simp add: data_step_def Let_def)

lemma function_call_step_keeps: "keeps_identity s (snd (function_call_step E mdl ts s fc))"
proof -
  obtain k s1 where t: "tool_call_id E s fc = (k, s1)" by (cases "tool_call_id E s fc")
  note m = function_call_step_map [OF t, of mdl ts]
  show ?thesis
    unfolding keeps_identity_def
  proof (intro allI impI)
    fix k' d assume d: "map_of (toolCallMap s) k' = Some d"
    show "map_option tcd_name
            (map_of (toolCallMap (snd (function_call_step E mdl ts s fc))) k')
            = Some (tcd_name d)
          \<and> map_option tcd_index
            (map_of (toolCallMap (snd (function_call_step E mdl ts s fc))) k')
            = Some (tcd_index d)"
    proof (cases "k' = k")
      case True
      with d show ?thesis unfolding m by (simp add: AList.update_conv')
    next
      case False
      with d show ?thesis unfolding m by (simp add: AList.update_conv')
    qed
  qed
qed

lemma part_step_keeps: "keeps_identity s (snd (part_step E mdl ts s p))"
proof -
  have "snd (part_step E mdl ts s p)
          = (case p_functionCall p of
               None \<Rightarrow> snd (text_step E mdl ts s p)
             | Some fc \<Rightarrow> snd (function_call_step E mdl ts (snd (text_step E mdl ts s p)) fc))"
    by (auto simp: part_step_def split: prod.splits option.splits)
  with text_step_keeps [of s E mdl ts p]
    function_call_step_keeps [of "snd (text_step E mdl ts s p)" E mdl ts]
  show ?thesis by (auto split: option.splits intro: keeps_identity_trans)
qed

lemma for_each_keeps:
  assumes "\<And>s x. x \<in> set xs \<Longrightarrow> keeps_identity s (snd (body s x))"
  shows "keeps_identity s (snd (for_each body s xs))"
  by (rule for_each_rel [where R = "\<lambda>s ys s'. keeps_identity s s'"])
    (auto intro: keeps_identity_refl keeps_identity_trans assms)

lemma finish_step_keeps:
  "finishReason0 c \<noteq> Some UNEXPECTED_TOOL_CALL \<Longrightarrow>
     keeps_identity s (snd (finish_step E mdl ts s c))"
  by (rule keeps_identity_same_map) (auto simp: finish_step_def split: option.splits)

lemma g_chunk_step_state:
  "snd (g_chunk_step E mdl ts s c)
     = snd (finish_step E mdl ts
              (snd (case parts0 c of
                      Some ps \<Rightarrow> for_each (part_step E mdl ts) s ps
                    | None \<Rightarrow> data_step E mdl ts s c)) c)"
  by (simp add: g_chunk_step_def split: prod.splits)

lemma g_chunk_step_keeps:
  assumes "finishReason0 c \<noteq> Some UNEXPECTED_TOOL_CALL"
  shows "keeps_identity s (snd (g_chunk_step E mdl ts s c))"
proof -
  define r where "r = (case parts0 c of
                      Some ps \<Rightarrow> for_each (part_step E mdl ts) s ps
                    | None \<Rightarrow> data_step E mdl ts s c)"
  have "keeps_identity s (snd r)"
  proof (cases "parts0 c")
    case None
    with data_step_keeps [of s E mdl ts c] show ?thesis by (simp add: r_def)
  next
    case (Some ps)
    have "keeps_identity s (snd (for_each (part_step E mdl ts) s ps))"
      by (rule for_each_keeps) (rule part_step_keeps)
    with Some show ?thesis by (simp add: r_def)
  qed
  from keeps_identity_trans [OF this finish_step_keeps [OF assms, of "snd r" E mdl ts]]
  show ?thesis by (simp add: g_chunk_step_state r_def)
qed

text \<open>
  Claim C8, as stated, fails: the name is fixed by the fragment that creates the record,
  whether or not it carries a name.  A first fragment of call \<open>c1\<close> without a name followed
  by a fragment of \<open>c1\<close> named \<open>calc\<close> leaves the record, and both emitted chunks, with
  the empty name.
\<close>

theorem C8_counterexample:
  "map_option tcd_name (map_of (toolCallMap (snd (processStreamChunks ex_env ''gemini-pro''
      ([ex_g_parts [ex_call_part (Some ''c1'') None None,
                    ex_call_part (Some ''c1'') (Some ''calc'') None] None], None)))) ''c1'')
     = Some []
   \<and> map (fn_name \<circ> tc_function \<circ> toolCall)
       (fst (fst (processStreamChunks ex_env ''gemini-pro''
         ([ex_g_parts [ex_call_part (Some ''c1'') None None,
                       ex_call_part (Some ''c1'') (Some ''calc'') None] None], None))))
     = [[], []]"
  by (simp add: processStreamChunks_def g_initial_def g_chunk_step_def part_step_def
        text_step_def finish_step_def function_call_step_def tool_call_id_def function_args_def
        args_text_def merged_args_def object_spread_def copy_props_def
        ex_g_parts_def ex_call_part_def parts0_def finishReason0_def truthy_def or_str_def
        Let_def ex_env_def ex_parse_def)

text \<open>
  Claim C8, amended.  A record is created by the first fragment that arrives under its
  key, with that fragment's name (the empty text if it has none) and the next free index.
  In a stream without the finish reason \<open>UNEXPECTED_TOOL_CALL\<close>, every record keeps its name
  and its index from then on: later fragments change only its arguments.
\<close>

theorem C8_name_and_index_stable:
  "(tool_call_id E s fc = (k, s1) \<and> map_of (toolCallMap s1) k = None \<longrightarrow>
      map_of (toolCallMap (snd (function_call_step E mdl ts s fc))) k
        = Some \<lparr> tcd_name = or_str (fc_name fc) [],
                 tcd_args = args_text E (function_args fc),
                 tcd_index = nextToolIndex s \<rparr>)
   \<and> (list_all (\<lambda>c. finishReason0 c \<noteq> Some UNEXPECTED_TOOL_CALL) cs
        \<and> map_of (toolCallMap s) k' = Some d \<longrightarrow>
      map_option tcd_name
        (map_of (toolCallMap (snd (for_each (g_chunk_step E mdl ts) s cs))) k')
        = Some (tcd_name d)
      \<and> map_option tcd_index
        (map_of (toolCallMap (snd (for_each (g_chunk_step E mdl ts) s cs))) k')
        = Some (tcd_index d))"
proof -
  have "keeps_identity s (snd (for_each (g_chunk_step E mdl ts) s cs))"
    if "list_all (\<lambda>c. finishReason0 c \<noteq> Some UNEXPECTED_TOOL_CALL) cs"
    by (rule for_each_keeps) (use that g_chunk_step_keeps in \<open>auto simp: list_all_iff\<close>)
  with function_call_step_creates [of E s fc k s1 mdl ts] show ?thesis
    unfolding keeps_identity_def by blast
qed

theorem C8_witness:
  "map_option tcd_name (map_of (toolCallMap (snd (for_each
      (g_chunk_step ex_env ''gemini-pro'' 1700) (ex_g_state ''{}'')
      [ex_g_parts [ex_call_part (Some ''c1'') (Some ''other'') None] (Some STOP)]))) ''c1'')
     = Some ''calc''
   \<and> map_option tcd_index (map_of (toolCallMap (snd (for_each
      (g_chunk_step ex_env ''gemini-pro'' 1700) (ex_g_state ''{}'')
      [ex_g_parts [ex_call_part (Some ''c1'') (Some ''other'') None] (Some STOP)]))) ''c1'')
     = Some 0
   \<and> map_of (toolCallMap (snd (function_call_step ex_env ''gemini-pro'' 1700 g_initial
        \<lparr> fc_id = Some ''c1'', fc_name = Some ''calc'', fc_args = None \<rparr>))) ''c1''
     = Some \<lparr> tcd_name = ''calc'', tcd_args = ''{}'', tcd_index = 0 \<rparr>"
proof -
  have h1: "list_all (\<lambda>c. finishReason0 c \<noteq> Some UNEXPECTED_TOOL_CALL)
              [ex_g_parts [ex_call_part (Some ''c1'') (Some ''other'') None] (Some STOP)]"
    by (simp add: ex_g_parts_def finishReason0_def)
  have h2: "map_of (toolCallMap (ex_g_state ''{}'')) ''c1''
              = Some \<lparr> tcd_name = ''calc'', tcd_args = ''{}'', tcd_index = 0 \<rparr>"
    by (simp add: ex_g_state_def)
  have h3: "tool_call_id ex_env g_initial
              \<lparr> fc_id = Some ''c1'', fc_name = Some ''calc'', fc_args = None \<rparr>
              = (''c1'', g_initial)
            \<and> map_of (toolCallMap g_initial) ''c1'' = None"
    by (simp add: tool_call_id_def truthy_def g_initial_def)
  from C8_name_and_index_stable [where E = ex_env and s = g_initial
      and fc = "\<lparr> fc_id = Some ''c1'', fc_name = Some ''calc'', fc_args = None \<rparr>"
      and k = "''c1''" and ?s1.0 = g_initial and mdl = "''gemini-pro''" and ts = 1700]
    h3
  have a: "map_of (toolCallMap (snd (function_call_step ex_env ''gemini-pro'' 1700 g_initial
        \<lparr> fc_id = Some ''c1'', fc_name = Some ''calc'', fc_args = None \<rparr>))) ''c1''
     = Some \<lparr> tcd_name = or_str (Some ''calc'') [],
          tcd_args = args_text ex_env (function_args
             \<lparr> fc_id = Some ''c1'', fc_name = Some ''calc'', fc_args = None \<rparr>),
          tcd_index = nextToolIndex g_initial \<rparr>"
    by simp
  from C8_name_and_index_stable [where E = ex_env and s = "ex_g_state ''{}''"
      and mdl = "''gemini-pro''" and ts = 1700
      and cs = "[ex_g_parts [ex_call_part (Some ''c1'') (Some ''other'') None] (Some STOP)]"
      and k' = "''c1''"
      and d = "\<lparr> tcd_name = ''calc'', tcd_args = ''{}'', tcd_index = 0 \<rparr>"]
    h1 h2
  have b: "map_option tcd_name (map_of (toolCallMap (snd (for_each
      (g_chunk_step ex_env ''gemini-pro'' 1700) (ex_g_state ''{}'')
      [ex_g_parts [ex_call_part (Some ''c1'') (Some ''other'') None] (Some STOP)]))) ''c1'')
     = Some ''calc''
   \<and> map_option tcd_index (map_of (toolCallMap (snd (for_each
      (g_chunk_step ex_env ''gemini-pro'' 1700) (ex_g_state ''{}'')
      [ex_g_parts [ex_call_part (Some ''c1'') (Some ''other'') None] (Some STOP)]))) ''c1'')
     = Some 0"
    by simp
  from a b show ?thesis
    by (simp add: or_str_def args_text_def function_args_def ex_env_def g_initial_def)
qed

text \<open>
  Under the finish reason \<open>UNEXPECTED_TOOL_CALL\<close> the function calls of the chunk are
  processed a second time and \<open>set\<close> in the map anew: the call is emitted twice and its
  record ends with the second index.
\<close>

lemma unexpected_tool_call_resets_index:
  "map index (filter is_tool_call (fst (fst (processStreamChunks ex_env ''gemini-pro''
      ([ex_g_parts [ex_call_part (Some ''c1'') (Some ''calc'') None]
          (Some UNEXPECTED_TOOL_CALL)], None)))))
     = [0, 1]
   \<and> map_option tcd_index (map_of (toolCallMap (snd (processStreamChunks ex_env ''gemini-pro''
      ([ex_g_parts [ex_call_part (Some ''c1'') (Some ''calc'') None]
          (Some UNEXPECTED_TOOL_CALL)], None)))) ''c1'')
     = Some 1"
  by (simp add: processStreamChunks_def g_initial_def g_chunk_step_def part_step_def
        text_step_def finish_step_def function_call_step_def unexpected_part_step_def
        tool_call_id_def function_args_def args_text_def
        ex_g_parts_def ex_call_part_def parts0_def finishReason0_def truthy_def or_str_def
        Let_def ex_env_def)

subsection \<open>The finish reason of the Gemini adapter\<close>

lemma done_track_append:
  "done_track b (ys @ zs)
     = (done_track b ys \<and> done_track (b \<or> (\<exists>y \<in> set ys. is_tool_call y)) zs)"
  by (induction ys arbitrary: b) (auto simp: disj_assoc)

lemma tracks_refl: "tracks s [] s"
  by (simp add: tracks_def)

lemma tracks_trans: "tracks s ys s1 \<Longrightarrow> tracks s1 zs s2 \<Longrightarrow> tracks s (ys @ zs) s2"
  by (auto simp: tracks_def done_track_append)

lemma update_not_Nil: "AList.update k v al \<noteq> []"
  by (cases al) auto

lemma text_step_tracks: "tracks s (fst (text_step E mdl ts s p)) (snd (text_step E mdl ts s p))"
  by (simp add: text_step_def tracks_def Let_def)

lemma data_step_tracks: "tracks s (fst (data_step E mdl ts s c)) (snd (data_step E mdl ts s c))"
  by (simp add: data_step_def tracks_def Let_def)

lemma function_call_step_tracks:
  "tracks s (fst (function_call_step E mdl ts s fc)) (snd (function_call_step E mdl ts s fc))"
  by (simp add: function_call_step_def tool_call_id_def tracks_def Let_def update_not_Nil
        split: prod.splits)

lemma unexpected_part_step_tracks:
  "tracks s (fst (unexpected_part_step E mdl ts s p)) (snd (unexpected_part_step E mdl ts s p))"
  by (simp add: unexpected_part_step_def tool_call_id_def tracks_def Let_def update_not_Nil
        split: prod.splits option.splits)

lemma part_step_tracks: "tracks s (fst (part_step E mdl ts s p)) (snd (part_step E mdl ts s p))"
proof -
  obtain ys1 s1 where 1: "text_step E mdl ts s p = (ys1, s1)" by (cases "text_step E mdl ts s p")
  from text_step_tracks [of s E mdl ts p] 1 have a1: "tracks s ys1 s1" by simp
  show ?thesis
  proof (cases "p_functionCall p")
    case None
    with 1 a1 show ?thesis by (simp add: part_step_def)
  next
    case (Some fc)
    obtain ys2 s2 where 2: "function_call_step E mdl ts s1 fc = (ys2, s2)"
      by (cases "function_call_step E mdl ts s1 fc")
    from function_call_step_tracks [of s1 E mdl ts fc] 2 have a2: "tracks s1 ys2 s2" by simp
    from tracks_trans [OF a1 a2] 1 2 Some show ?thesis by (simp add: part_step_def)
  qed
qed

lemma finish_step_tracks:
  "tracks s (fst (finish_step E mdl ts s c)) (snd (finish_step E mdl ts s c))"
proof (cases "finishReason0 c")
  case None
  then show ?thesis by (simp add: finish_step_def tracks_refl)
next
  case (Some fr)
  define r1 where "r1 = (if fr = UNEXPECTED_TOOL_CALL
                 then (case parts0 c of
                         None \<Rightarrow> ([], s)
                       | Some ps \<Rightarrow> for_each (unexpected_part_step E mdl ts) s ps)
                 else ([], s))"
  obtain ys1 s1 where 1: "r1 = (ys1, s1)" by (cases r1)
  have a1: "tracks s ys1 s1"
  proof (cases "fr = UNEXPECTED_TOOL_CALL \<and> parts0 c \<noteq> None")
    case True
    then obtain ps where ps: "parts0 c = Some ps" by auto
    have "tracks s (fst (for_each (unexpected_part_step E mdl ts) s ps))
            (snd (for_each (unexpected_part_step E mdl ts) s ps))"
      by (rule for_each_rel [where R = tracks]) (auto intro: tracks_refl tracks_trans unexpected_part_step_tracks)
    then show ?thesis using True ps 1 by (simp add: r1_def)
  next
    case False
    with 1 have "ys1 = [] \<and> s1 = s" by (auto simp: r1_def split: if_splits)
    then show ?thesis by (simp add: tracks_refl)
  qed
  define r2 where "r2 = (if fr = MAX_TOKENS
                      then ([Error (generateId E (ids s1)) mdl ts
                               \<lparr> message = max_tokens_message, code = None \<rparr>],
                            s1\<lparr> ids := Suc (ids s1) \<rparr>)
                      else ([], s1))"
  obtain ys2 s2 where 2: "r2 = (ys2, s2)" by (cases r2)
  have a2: "tracks s1
              (ys2 @ [Done (generateId E (ids s2)) mdl ts
                        (if toolCallMap s2 \<noteq> [] then ''tool_calls'' else ''stop'')
                        (map_option g_usage_of (g_usageMetadata c))])
              (s2\<lparr> ids := Suc (ids s2) \<rparr>)"
    using 2 by (auto simp: r2_def tracks_def split: if_splits)
  from tracks_trans [OF a1 a2] Some 1 2
  show ?thesis by (simp add: finish_step_def r1_def [symmetric] r2_def [symmetric])
qed

lemma g_chunk_step_tracks:
  "tracks s (fst (g_chunk_step E mdl ts s c)) (snd (g_chunk_step E mdl ts s c))"
proof -
  define r1 where "r1 = (case parts0 c of
              Some ps \<Rightarrow> for_each (part_step E mdl ts) s ps
            | None \<Rightarrow> data_step E mdl ts s c)"
  obtain ys1 s1 where 1: "r1 = (ys1, s1)" by (cases r1)
  obtain ys2 s2 where 2: "finish_step E mdl ts s1 c = (ys2, s2)"
    by (cases "finish_step E mdl ts s1 c")
  have a1: "tracks s ys1 s1"
  proof (cases "parts0 c")
    case None
    with data_step_tracks [of s E mdl ts c] 1 show ?thesis by (simp add: r1_def)
  next
    case (Some ps)
    have "tracks s (fst (for_each (part_step E mdl ts) s ps))
            (snd (for_each (part_step E mdl ts) s ps))"
      by (rule for_each_rel [where R = tracks]) (auto intro: tracks_refl tracks_trans part_step_tracks)
    then show ?thesis using Some 1 by (simp add: r1_def)
  qed
  from finish_step_tracks [of s1 E mdl ts c] 2 have a2: "tracks s1 ys2 s2" by simp
  from tracks_trans [OF a1 a2] 1 2
  show ?thesis by (simp add: g_chunk_step_def r1_def [symmetric])
qed

lemma done_track_nth:
  "done_track b ys \<Longrightarrow> n < length ys \<Longrightarrow> is_done (ys ! n) \<Longrightarrow>
     finishReason (ys ! n)
       = (if b \<or> (\<exists>y \<in> set (take n ys). is_tool_call y) then ''tool_calls'' else ''stop'')"
proof (induction ys arbitrary: b n)
  case Nil
  then show ?case by simp
next
  case (Cons y ys)
  show ?case
  proof (cases n)
    case 0
    with Cons.prems show ?thesis by simp
  next
    case (Suc m)
    with Cons.prems have "done_track (b \<or> is_tool_call y) ys" "m < length ys" "is_done (ys ! m)"
      by simp_all
    from Cons.IH [OF this] Suc show ?thesis by (simp add: disj_assoc)
  qed
qed

lemma done_track_snoc_error:
  "done_track b ys \<Longrightarrow> done_track b (ys @ [Error i m t e])"
  by (simp add: done_track_append)

lemma processStreamChunks_tracks:
  "done_track False (fst (fst (processStreamChunks E mdl vs)))"
proof -
  obtain ys s where r: "for_each (g_chunk_step E mdl (Date_now E 0)) g_initial (fst vs) = (ys, s)"
    by (cases "for_each (g_chunk_step E mdl (Date_now E 0)) g_initial (fst vs)")
  have "tracks g_initial (fst (for_each (g_chunk_step E mdl (Date_now E 0)) g_initial (fst vs)))
          (snd (for_each (g_chunk_step E mdl (Date_now E 0)) g_initial (fst vs)))"
    by (rule for_each_rel [where R = tracks]) (auto intro: tracks_refl tracks_trans g_chunk_step_tracks)
  with r show ?thesis by (simp add: processStreamChunks_def tracks_def g_initial_def)
qed

lemma gemini_chatStream_tracks: "done_track False (fst (gemini_chatStream E mdl r))"
proof (cases r)
  case (Inl e)
  then show ?thesis by (simp add: gemini_chatStream_def)
next
  case (Inr vs)
  obtain ys failure s where p: "processStreamChunks E mdl vs = ((ys, failure), s)"
    by (cases "processStreamChunks E mdl vs") auto
  from processStreamChunks_tracks [of E mdl vs] p have a: "done_track False ys" by simp
  show ?thesis
  proof (cases failure)
    case None
    with a Inr p show ?thesis by (simp add: gemini_chatStream_def)
  next
    case (Some e)
    with done_track_snoc_error [OF a] Inr p show ?thesis by (simp add: gemini_chatStream_def)
  qed
qed

lemma finish_step_max_tokens:
  "finishReason0 c = Some MAX_TOKENS \<Longrightarrow>
     fst (finish_step E mdl ts s c) =
       [Error (generateId E (ids s)) mdl ts \<lparr> message = max_tokens_message, code = None \<rparr>,
        Done (generateId E (Suc (ids s))) mdl ts
          (if toolCallMap s \<noteq> [] then ''tool_calls'' else ''stop'')
          (map_option g_usage_of (g_usageMetadata c))]"
  by (simp add: finish_step_def)

text \<open>
  Claim C9.  In the Gemini adapter every \<open>done\<close> chunk reports \<open>tool_calls\<close> if at least
  one tool call was recorded before it in the stream (a \<open>tool_call\<close> chunk was emitted)
  and \<open>stop\<close> otherwise, so it never reports \<open>length\<close> or \<open>content_filter\<close>; a vendor
  finish reason \<open>MAX_TOKENS\<close> makes the adapter emit an \<open>error\<close> chunk followed by
  that \<open>done\<close> chunk.
\<close>

theorem C9_gemini_finish_reason:
  "(\<forall>n < length (fst (gemini_chatStream E mdl r)).
      is_done (fst (gemini_chatStream E mdl r) ! n) \<longrightarrow>
        finishReason (fst (gemini_chatStream E mdl r) ! n)
          = (if \<exists>y \<in> set (take n (fst (gemini_chatStream E mdl r))). is_tool_call y
             then ''tool_calls'' else ''stop''))
   \<and> (\<forall>y \<in> set (fst (gemini_chatStream E mdl r)).
        is_done y \<longrightarrow> finishReason y \<noteq> ''length'' \<and> finishReason y \<noteq> ''content_filter'')
   \<and> (finishReason0 c = Some MAX_TOKENS \<longrightarrow>
        fst (finish_step E mdl ts s c) =
          [Error (generateId E (ids s)) mdl ts \<lparr> message = max_tokens_message, code = None \<rparr>,
           Done (generateId E (Suc (ids s))) mdl ts
             (if toolCallMap s \<noteq> [] then ''tool_calls'' else ''stop'')
             (map_option g_usage_of (g_usageMetadata c))])"
proof -
  let ?ys = "fst (gemini_chatStream E mdl r)"
  have 1: "\<forall>n < length ?ys. is_done (?ys ! n) \<longrightarrow>
        finishReason (?ys ! n)
          = (if \<exists>y \<in> set (take n ?ys). is_tool_call y then ''tool_calls'' else ''stop'')"
    using done_track_nth [OF gemini_chatStream_tracks [of E mdl r]] by simp
  have 2: "\<forall>y \<in> set ?ys. is_done y \<longrightarrow>
             finishReason y \<noteq> ''length'' \<and> finishReason y \<noteq> ''content_filter''"
  proof (intro ballI impI)
    fix y assume "y \<in> set ?ys" and d: "is_done y"
    then obtain n where n: "n < length ?ys" and y: "y = ?ys ! n" by (auto simp: in_set_conv_nth)
    from 1 n y d have "finishReason y = ''tool_calls'' \<or> finishReason y = ''stop''"
      by (auto split: if_splits)
    then show "finishReason y \<noteq> ''length'' \<and> finishReason y \<noteq> ''content_filter''" by auto
  qed
  from 1 2 finish_step_max_tokens [of c E mdl ts s] show ?thesis by blast
qed


theorem C9_witness:
  "map finishReason (filter is_done (fst (gemini_chatStream ex_env ''gemini-pro''
      (Inr ([ex_g_parts [ex_call_part (Some ''c1'') (Some ''calc'') None] (Some STOP)], None)))))
     = [''tool_calls'']
   \<and> map is_error (fst (gemini_chatStream ex_env ''gemini-pro''
      (Inr ([ex_g_parts [ex_text_part ''Hi''] (Some MAX_TOKENS)], None))))
     = [False, True, False]
   \<and> map finishReason (filter is_done (fst (gemini_chatStream ex_env ''gemini-pro''
      (Inr ([ex_g_parts [ex_text_part ''Hi''] (Some MAX_TOKENS)], None)))))
     = [''stop'']"
proof -
  let ?a = "fst (gemini_chatStream ex_env ''gemini-pro''
      (Inr ([ex_g_parts [ex_call_part (Some ''c1'') (Some ''calc'') None] (Some STOP)], None)))"
  let ?b = "fst (gemini_chatStream ex_env ''gemini-pro''
      (Inr ([ex_g_parts [ex_text_part ''Hi''] (Some MAX_TOKENS)], None)))"
  have a: "map is_done ?a = [False, True] \<and> map is_tool_call ?a = [True, False]"
    by (simp add: gemini_chatStream_def processStreamChunks_def g_initial_def
          g_chunk_step_def part_step_def text_step_def finish_step_def function_call_step_def
          tool_call_id_def function_args_def args_text_def ex_g_parts_def ex_call_part_def
          parts0_def finishReason0_def truthy_def Let_def ex_env_def)
  have b: "map is_done ?b = [False, False, True] \<and> map is_tool_call ?b = [False, False, False]
           \<and> map is_error ?b = [False, True, False]"
    by (simp add: gemini_chatStream_def processStreamChunks_def g_initial_def
          g_chunk_step_def part_step_def text_step_def finish_step_def ex_g_parts_def
          ex_text_part_def parts0_def finishReason0_def truthy_def Let_def ex_env_def)
  from a obtain a0 a1 where as: "?a = [a0, a1]" "\<not> is_done a0" "is_done a1" "is_tool_call a0"
    by (auto simp: map_eq_Cons_conv)
  from b obtain b0 b1 b2 where bs: "?b = [b0, b1, b2]" "\<not> is_done b0" "\<not> is_done b1" "is_done b2"
      "\<not> is_tool_call b0" "\<not> is_tool_call b1"
    by (auto simp: map_eq_Cons_conv)
  from C9_gemini_finish_reason [of ex_env "''gemini-pro''"
      "Inr ([ex_g_parts [ex_call_part (Some ''c1'') (Some ''calc'') None] (Some STOP)], None)"]
  have "1 < length ?a \<longrightarrow> is_done (?a ! 1) \<longrightarrow> finishReason (?a ! 1)
          = (if \<exists>y \<in> set (take 1 ?a). is_tool_call y then ''tool_calls'' else ''stop'')"
    by blast
  with as have fa: "finishReason a1 = ''tool_calls''" by simp
  from C9_gemini_finish_reason [of ex_env "''gemini-pro''"
      "Inr ([ex_g_parts [ex_text_part ''Hi''] (Some MAX_TOKENS)], None)"]
  have "2 < length ?b \<longrightarrow> is_done (?b ! 2) \<longrightarrow> finishReason (?b ! 2)
          = (if \<exists>y \<in> set (take 2 ?b). is_tool_call y then ''tool_calls'' else ''stop'')"
    by blast
  with bs have fb: "finishReason b2 = ''stop''" by simp
  from as bs fa fb b show ?thesis by simp
qed

subsection \<open>chatCompletionStream\<close>

lemma chatCompletionStream_chunk_content:
  "y \<in> set (chatCompletionStream_chunk c) \<Longrightarrow>
     truthy (delta_content c) \<and> cc_content y = the (delta_content c)
     \<and> cc_finishReason y = finish_reason0 c"
  by (auto simp: chatCompletionStream_chunk_def split: if_splits)

text \<open>
  Claim C10.  \<open>chatCompletionStream\<close> yields exactly one chunk for every vendor chunk whose
  delta carries non-empty content and none for any other; every yielded chunk has non-empty
  content; and when every vendor chunk that carries a finish reason has no content, no
  yielded chunk carries a finish reason, so the caller sees no completion signal.
\<close>

theorem C10_chatCompletionStream_only_content:
  "fst (chatCompletionStream (Inr (cs, failure)))
     = concat (map chatCompletionStream_chunk cs)
   \<and> length (fst (chatCompletionStream (Inr (cs, failure))))
     = length (filter (\<lambda>c. truthy (delta_content c)) cs)
   \<and> (\<forall>y \<in> set (fst (chatCompletionStream (Inr (cs, failure)))). cc_content y \<noteq> [])
   \<and> ((\<forall>c \<in> set cs. finish_reason0 c \<noteq> None \<longrightarrow> \<not> truthy (delta_content c))
        \<longrightarrow> (\<forall>y \<in> set (fst (chatCompletionStream (Inr (cs, failure)))).
               cc_finishReason y = None))"
proof -
  let ?out = "fst (chatCompletionStream (Inr (cs, failure)))"
  have out: "?out = concat (map chatCompletionStream_chunk cs)"
    by (simp add: chatCompletionStream_def)
  have len: "length (concat (map chatCompletionStream_chunk cs))
               = length (filter (\<lambda>c. truthy (delta_content c)) cs)"
    by (induction cs) (simp_all add: chatCompletionStream_chunk_def)
  have nonempty: "\<forall>y \<in> set ?out. cc_content y \<noteq> []"
  proof
    fix y assume "y \<in> set ?out"
    then obtain c where "c \<in> set cs" and y: "y \<in> set (chatCompletionStream_chunk c)"
      unfolding out by auto
    from chatCompletionStream_chunk_content [OF y] show "cc_content y \<noteq> []"
      by (auto simp: truthy_def split: option.splits)
  qed
  have silent: "\<forall>y \<in> set ?out. cc_finishReason y = None"
    if h: "\<forall>c \<in> set cs. finish_reason0 c \<noteq> None \<longrightarrow> \<not> truthy (delta_content c)"
  proof
    fix y assume "y \<in> set ?out"
    then obtain c where c: "c \<in> set cs" and y: "y \<in> set (chatCompletionStream_chunk c)"
      unfolding out by auto
    from chatCompletionStream_chunk_content [OF y]
    have "truthy (delta_content c)" and "cc_finishReason y = finish_reason0 c" by simp_all
    with h c show "cc_finishReason y = None" by auto
  qed
  from out len nonempty silent show ?thesis by simp
qed

theorem C10_witness:
  "map cc_finishReason
     (fst (chatCompletionStream (Inr ([ex_oa_text ''Hi'', ex_oa_finish ''stop''], None))))
     = [None]
   \<and> finish_reason0 (ex_oa_finish ''stop'') = Some ''stop''"
proof -
  have h: "\<forall>c \<in> set [ex_oa_text ''Hi'', ex_oa_finish ''stop''].
             finish_reason0 c \<noteq> None \<longrightarrow> \<not> truthy (delta_content c)"
    by (simp add: ex_oa_text_def ex_oa_finish_def finish_reason0_def choice0_def
          delta_content_def delta0_def truthy_def)
  from C10_chatCompletionStream_only_content [of "[ex_oa_text ''Hi'', ex_oa_finish ''stop'']" None] h
  have "\<forall>y \<in> set (fst (chatCompletionStream
                 (Inr ([ex_oa_text ''Hi'', ex_oa_finish ''stop''], None)))).
          cc_finishReason y = None"
    by blast
  then show ?thesis
    by (simp add: chatCompletionStream_def chatCompletionStream_chunk_def ex_oa_text_def
          ex_oa_finish_def finish_reason0_def choice0_def delta_content_def delta0_def truthy_def)
qed

end
